theory Spec2Isabelle
  imports Main
begin

section \<open>Strings as the code uses them\<close>

text \<open>
  A \<^verbatim>\<open>std::string\<close> is a list of bytes. \<^verbatim>\<open>c_str()\<close> hands the engine a C string,
  which ends at the first NUL byte.
\<close>

definition c_str :: "string \<Rightarrow> string" where
  "c_str s = takeWhile (\<lambda>ch. ch \<noteq> CHR 0x00) s"

abbreviation newline :: char where
  "newline \<equiv> CHR 0x0A"

text \<open>
  Modelled from the spec: \<^verbatim>\<open>trimmed_string\<close> is declared in libutil.h, which is not part
  of the sources at hand. The spec (4.4) has a state "Empty" next to source and compiled;
  \<^verbatim>\<open>empty()\<close> decides it on the trimmed source text. The helper strips blanks, tabs,
  line feeds and carriage returns from both ends of a text.
\<close>

definition is_blank :: "char \<Rightarrow> bool" where
  "is_blank ch = (ch = CHR 0x20 \<or> ch = CHR 0x09 \<or> ch = CHR 0x0A \<or> ch = CHR 0x0D)"

definition trimmed_string :: "string \<Rightarrow> string" where
  "trimmed_string s = rev (dropWhile is_blank (rev (dropWhile is_blank s)))"

section \<open>The script chunk (class \<^verbatim>\<open>dlua_chunk\<close>)\<close>

text \<open>
  The members of \<^verbatim>\<open>dlua_chunk\<close> that luadgn.cc reads and writes. \<^verbatim>\<open>file\<close> and
  \<^verbatim>\<open>context\<close> are reserved words of Isabelle and \<^verbatim>\<open>last\<close> is a list function,
  so these three members have longer names here; for the same reason \<^verbatim>\<open>empty()\<close> is
  \<open>empty_chunk\<close>.
\<close>

record dlua_chunk =
  file_name :: string
  chunk :: string
  compiled :: string
  context_tag :: string
  first :: int
  last_line :: int
  error :: string

definition clear :: "dlua_chunk \<Rightarrow> dlua_chunk" where
  "clear c = c\<lparr>file_name := [], chunk := [], first := - 1, last_line := - 1,
                error := [], compiled := []\<rparr>"

text \<open>The constructor stores the context and clears everything else.\<close>

definition new_chunk :: "string \<Rightarrow> dlua_chunk" where
  "new_chunk ctx = clear \<lparr>file_name = [], chunk = [], compiled = [], context_tag = ctx,
                           first = - 1, last_line = - 1, error = []\<rparr>"

definition set_file :: "dlua_chunk \<Rightarrow> string \<Rightarrow> dlua_chunk" where
  "set_file c s = c\<lparr>file_name := s\<rparr>"

definition set_chunk :: "dlua_chunk \<Rightarrow> string \<Rightarrow> dlua_chunk" where
  "set_chunk c s = c\<lparr>chunk := s\<rparr>"

definition empty_chunk :: "dlua_chunk \<Rightarrow> bool" where
  "empty_chunk c = (compiled c = [] \<and> trimmed_string (chunk c) = [])"

text \<open>
  \<^verbatim>\<open>while (last++ < line) chunk += '\n';\<close>
  The comparison reads the old value of \<^verbatim>\<open>last\<close>, the increment happens in every
  test, also in the one that ends the loop.
\<close>

function add_newlines :: "int \<Rightarrow> int \<Rightarrow> string \<Rightarrow> int \<times> string" where
  "add_newlines lst line ch =
     (if lst < line then add_newlines (lst + 1) line (ch @ [newline]) else (lst + 1, ch))"
  by pat_completeness auto
termination
  by (relation "measure (\<lambda>(lst, line, ch). nat (line - lst))") auto

declare add_newlines.simps [simp del]

definition add :: "dlua_chunk \<Rightarrow> int \<Rightarrow> string \<Rightarrow> dlua_chunk" where
  "add c line s =
     (let c1 = (if first c = - 1 then c\<lparr>first := line\<rparr> else c);
          c2 = (if line \<noteq> last_line c1 \<and> last_line c1 \<noteq> - 1
                then (case add_newlines (last_line c1) line (chunk c1) of
                        (l, ch) \<Rightarrow> c1\<lparr>last_line := l, chunk := ch\<rparr>)
                else c1)
      in c2\<lparr>chunk := chunk c2 @ '' '' @ s, last_line := line\<rparr>)"

section \<open>The engine seen from the chunk\<close>

text \<open>
  The script engine (class \<^verbatim>\<open>CLua\<close> over the Lua library) is an external collaborator.
  Its state is a type parameter and the calls \<^verbatim>\<open>dlua_chunk\<close> makes are the fields of
  a record: each takes the interpreter state and returns the new one with its result.
  \<^verbatim>\<open>interp_error\<close> reads the public member \<^verbatim>\<open>CLua::error\<close>; \<^verbatim>\<open>lua_dump\<close> returns
  the status and the bytes it handed to the writer callback, which appends them to the
  output stream.
\<close>

record 'i lua_api =
  loadbuffer :: "'i \<Rightarrow> string \<Rightarrow> string \<Rightarrow> int \<times> 'i"
  loadstring :: "'i \<Rightarrow> string \<Rightarrow> string \<Rightarrow> int \<times> 'i"
  interp_error :: "'i \<Rightarrow> string"
  lua_dump :: "'i \<Rightarrow> int \<times> string \<times> 'i"
  lua_tostring :: "'i \<Rightarrow> int \<Rightarrow> string option"
  lua_pop :: "'i \<Rightarrow> nat \<Rightarrow> 'i"
  callfn :: "'i \<Rightarrow> string option \<Rightarrow> int \<Rightarrow> int \<Rightarrow> bool \<times> 'i"

definition check_op :: "'i lua_api \<Rightarrow> 'i \<Rightarrow> dlua_chunk \<Rightarrow> int \<Rightarrow> int \<times> dlua_chunk" where
  "check_op L interp c err = (err, c\<lparr>error := interp_error L interp\<rparr>)"

definition load :: "'i lua_api \<Rightarrow> 'i \<Rightarrow> dlua_chunk \<Rightarrow> int \<times> 'i \<times> dlua_chunk" where
  "load L interp c =
     (if compiled c \<noteq> [] then
        (case loadbuffer L interp (compiled c) (c_str (context_tag c)) of
           (r, interp1) \<Rightarrow>
             (case check_op L interp1 c r of (err, c1) \<Rightarrow> (err, interp1, c1)))
      else if empty_chunk c then (- 1000, interp, c\<lparr>chunk := []\<rparr>)
      else
        (case loadstring L interp (c_str (chunk c)) (c_str (context_tag c)) of
           (r, interp1) \<Rightarrow>
             (case check_op L interp1 c r of
                (err, c1) \<Rightarrow>
                  if err \<noteq> 0 then (err, interp1, c1)
                  else
                    (case lua_dump L interp1 of
                       (err2, out, interp2) \<Rightarrow>
                         if err2 \<noteq> 0 then
                           (err2, lua_pop L interp2 2,
                            c1\<lparr>error := (case lua_tostring L interp2 (- 1) of
                                             Some e \<Rightarrow> e
                                           | None \<Rightarrow> ''Unknown error compiling chunk''),
                               compiled := out, chunk := []\<rparr>)
                         else (err2, interp2, c1\<lparr>compiled := out, chunk := []\<rparr>)))))"

definition load_call ::
  "'i lua_api \<Rightarrow> 'i \<Rightarrow> dlua_chunk \<Rightarrow> string option \<Rightarrow> int \<times> 'i \<times> dlua_chunk" where
  "load_call L interp c fn =
     (case load L interp c of
        (err, interp1, c1) \<Rightarrow>
          if err = - 1000 then (0, interp1, c1)
          else if err \<noteq> 0 then (err, interp1, c1)
          else
            (case callfn L interp1 fn (if fn \<noteq> None then 1 else 0) 0 of
               (ok, interp2) \<Rightarrow>
                 (case check_op L interp2 c1 (if ok then 0 else 1) of
                    (r, c2) \<Rightarrow> (r, interp2, c2))))"

subsection \<open>A small engine for concrete runs\<close>

text \<open>
  The interpreter state of this engine is the list of calls it has received, so a run
  shows what reached the engine. Loading the text \<^verbatim>\<open>bad\<close> fails with status 3,
  everything else loads; dumping yields the four bytes \<^verbatim>\<open>LuaQ\<close>.
\<close>

definition log_engine :: "string list lua_api" where
  "log_engine =
     \<lparr>loadbuffer = (\<lambda>i buf ctx. (0, i @ [''loadbuffer:'' @ buf])),
      loadstring = (\<lambda>i str ctx. (if str = ''bad'' then 3 else 0, i @ [''loadstring:'' @ str])),
      interp_error = (\<lambda>i. if i \<noteq> [] \<and> List.last i = ''loadstring:bad''
                           then ''syntax error'' else []),
      lua_dump = (\<lambda>i. (0, ''LuaQ'', i @ [''dump''])),
      lua_tostring = (\<lambda>i n. None),
      lua_pop = (\<lambda>i n. i),
      callfn = (\<lambda>i fn nargs nret. (True, i @ [''call'']))\<rparr>"

definition source_chunk :: dlua_chunk where
  "source_chunk = add (set_file (new_chunk ''chunk1'') ''vault.des'') 5 ''return 1''"

definition compiled_chunk :: dlua_chunk where
  "compiled_chunk = snd (snd (load log_engine [] source_chunk))"

section \<open>Error-message rewriting\<close>

text \<open>
  \<^verbatim>\<open>std::string::find(t, pos)\<close>: the first position at or after \<^verbatim>\<open>pos\<close> where
  \<^verbatim>\<open>t\<close> occurs, \<^verbatim>\<open>npos\<close> (here \<open>None\<close>) when there is none.
\<close>

primrec find_at :: "string \<Rightarrow> string \<Rightarrow> nat \<Rightarrow> nat option" where
  "find_at t [] i = (if t = [] then Some i else None)"
| "find_at t (x # xs) i =
     (if take (length t) (x # xs) = t then Some i else find_at t xs (Suc i))"

definition str_find :: "string \<Rightarrow> string \<Rightarrow> nat \<Rightarrow> nat option" where
  "str_find s t pos = (if pos \<le> length s then find_at t (drop pos s) pos else None)"

text \<open>
  \<^verbatim>\<open>substr(pos, n)\<close> and \<^verbatim>\<open>substr(pos)\<close>. Every position the code passes comes from
  a successful \<^verbatim>\<open>find\<close> on the same text, so the out-of-range exception of
  \<^verbatim>\<open>substr\<close> cannot be raised.
\<close>

definition substr :: "string \<Rightarrow> nat \<Rightarrow> nat \<Rightarrow> string" where
  "substr s pos n = take n (drop pos s)"

definition substr_from :: "string \<Rightarrow> nat \<Rightarrow> string" where
  "substr_from s pos = drop pos s"

text \<open>
  C's \<^verbatim>\<open>atoi\<close>: white space, an optional sign, then decimal digits up to the first
  other character. The result is the mathematical value; C leaves it undefined when
  that value does not fit an \<^verbatim>\<open>int\<close>.
\<close>

definition isspace :: "char \<Rightarrow> bool" where
  "isspace ch = (ch = CHR 0x20 \<or> ch = CHR 0x09 \<or> ch = CHR 0x0A \<or> ch = CHR 0x0B
                 \<or> ch = CHR 0x0C \<or> ch = CHR 0x0D)"

definition isdigit :: "char \<Rightarrow> bool" where
  "isdigit ch = (48 \<le> (of_char ch :: nat) \<and> (of_char ch :: nat) \<le> 57)"

fun atoi_digits :: "int \<Rightarrow> string \<Rightarrow> int" where
  "atoi_digits acc [] = acc"
| "atoi_digits acc (ch # cs) =
     (if isdigit ch then atoi_digits (acc * 10 + (int (of_char ch) - 48)) cs else acc)"

definition atoi :: "string \<Rightarrow> int" where
  "atoi s =
     (case dropWhile isspace s of
        [] \<Rightarrow> 0
      | ch # cs \<Rightarrow>
          if ch = CHR ''-'' then - atoi_digits 0 cs
          else if ch = CHR ''+'' then atoi_digits 0 cs
          else atoi_digits 0 (ch # cs))"

text \<open>\<^verbatim>\<open>make_stringf("%d", n)\<close>: the decimal numeral of \<^verbatim>\<open>n\<close>.\<close>

function digits_of :: "nat \<Rightarrow> string" where
  "digits_of n =
     (if n < 10 then [char_of (48 + n)]
      else digits_of (n div 10) @ [char_of (48 + n mod 10)])"
  by pat_completeness auto
termination
  by (relation "measure id") auto

declare digits_of.simps [simp del]

definition make_stringf_d :: "int \<Rightarrow> string" where
  "make_stringf_d n = (if n < 0 then CHR ''-'' # digits_of (nat (- n)) else digits_of (nat n))"

definition INT_MIN :: int where
  "INT_MIN = - 2147483648"

definition INT_MAX :: int where
  "INT_MAX = 2147483647"

definition fits_int :: "int \<Rightarrow> bool" where
  "fits_int n = (INT_MIN \<le> n \<and> n \<le> INT_MAX)"

text \<open>The marker the engine puts before a line number: \<^verbatim>\<open>[string "context"]:\<close>.\<close>

definition contextm :: "dlua_chunk \<Rightarrow> string" where
  "contextm c = ''[string '' @ [CHR 0x22] @ context_tag c @ [CHR 0x22] @ '']:''"

definition rewrite_chunk_prefix :: "dlua_chunk \<Rightarrow> string \<Rightarrow> string" where
  "rewrite_chunk_prefix c line =
     (case str_find line (contextm c) 0 of
        None \<Rightarrow> line
      | Some ps \<Rightarrow>
          (let lns = ps + length (contextm c);
               s = (case str_find line '':'' lns of
                      None \<Rightarrow> line
                    | Some pe \<Rightarrow>
                        (let line_num = substr line lns (pe - lns);
                             lnum = atoi (c_str line_num)
                         in substr line 0 lns @ make_stringf_d (lnum + first c - 1)
                              @ substr_from line pe))
           in substr s 0 ps @ (if file_name c = [] then context_tag c else file_name c)
                @ '':'' @ substr_from s (ps + length (contextm c))))"

definition get_chunk_prefix :: "dlua_chunk \<Rightarrow> string \<Rightarrow> string" where
  "get_chunk_prefix c sorig =
     (let s = rewrite_chunk_prefix c sorig in
      case str_find s '':'' 0 of
        None \<Rightarrow> s
      | Some cpos \<Rightarrow>
          (case str_find s '':'' (cpos + 1) of
             None \<Rightarrow> s
           | Some cnpos \<Rightarrow> substr s 0 cnpos))"

text \<open>
  Modelled from the spec: \<^verbatim>\<open>split_string\<close> is declared in libutil.h, which is not part
  of the sources at hand. The spec speaks of the "lines" of a multi-line message and of
  "comma-separated" fragments: the text is cut at every occurrence of the separator.
\<close>

function split_string :: "string \<Rightarrow> string \<Rightarrow> string list" where
  "split_string sep s =
     (if sep = [] then [s]
      else (case str_find s sep 0 of
              None \<Rightarrow> [s]
            | Some pos \<Rightarrow> take pos s # split_string sep (drop (pos + length sep) s)))"
  by pat_completeness auto
termination
proof (relation "measure (\<lambda>(sep, s). length s)")
  show "wf (measure (\<lambda>(sep, s). length s))"
    by simp
next
  fix sep s :: string and pos :: nat
  assume sep: "sep \<noteq> []" and found: "str_find s sep 0 = Some pos"
  have "s \<noteq> []"
  proof
    assume "s = []"
    with sep found show False
      by (simp add: str_find_def)
  qed
  with sep show "((sep, drop (pos + length sep) s), (sep, s)) \<in> measure (\<lambda>(sep, s). length s)"
    by simp
qed

declare split_string.simps [simp del]

text \<open>
  The loop of \<^verbatim>\<open>rewrite_chunk_errors\<close>:
  \<^verbatim>\<open>for (int i = 2, size = lines.size() - 1; i < size; ++i)\<close>.
\<close>

function rewrite_lines ::
  "dlua_chunk \<Rightarrow> string list \<Rightarrow> int \<Rightarrow> int \<Rightarrow> string \<Rightarrow> bool \<Rightarrow> string" where
  "rewrite_lines c lines i sz newmsg wrote_prefix =
     (if i < sz then
        (let st = lines ! nat i in
         if str_find st (context_tag c) 0 \<noteq> None then
           (if \<not> wrote_prefix
            then rewrite_lines c lines (i + 1) sz
                   (get_chunk_prefix c st @ '': '' @ newmsg) True
            else rewrite_lines c lines (i + 1) sz
                   (newmsg @ [CHR 0x0A] @ rewrite_chunk_prefix c st) wrote_prefix)
         else rewrite_lines c lines (i + 1) sz newmsg wrote_prefix)
      else newmsg)"
  by pat_completeness auto
termination
  by (relation "measure (\<lambda>(c, lines, i, sz, newmsg, wrote_prefix). nat (sz - i))") auto

declare rewrite_lines.simps [simp del]

text \<open>
  The result pairs the returned flag with the new value of the reference argument.
  \<open>None\<close> stands for the read of \<^verbatim>\<open>lines[0]\<close> on an empty vector.
\<close>

definition rewrite_chunk_errors :: "dlua_chunk \<Rightarrow> string \<Rightarrow> (bool \<times> string) option" where
  "rewrite_chunk_errors c s =
     (case str_find s (contextm c) 0 of
        None \<Rightarrow> Some (False, s)
      | Some dlwhere \<Rightarrow>
          if dlwhere = 0 then Some (True, rewrite_chunk_prefix c s)
          else
            (case split_string [CHR 0x0A] s of
               [] \<Rightarrow> None
             | l0 # ls \<Rightarrow>
                 Some (True, rewrite_lines c (l0 # ls) 2 (int (length (l0 # ls)) - 1) l0 False)))"

section \<open>Binary persistence of a chunk\<close>

text \<open>
  Modelled from the spec: the primitives \<^verbatim>\<open>writeByte\<close>, \<^verbatim>\<open>writeString\<close>,
  \<^verbatim>\<open>writeLong\<close> and their readers are declared in files.h, which is not part of the
  sources at hand, and so are the tag values and the two caps. The spec gives the layout
  "tag:u8, payload:len-prefixed-bytes capped at MAX_CHUNK_SIZE, file:len-prefixed-string,
  line_offset:i32" with the tags Empty=0, Source=1, Compiled=2. A file is the list of the
  cells written to it: one cell for the tag, for a length prefix and for the line offset,
  and one cell per byte of a string. A string longer than its cap is cut to the cap when
  written. A reader fails (\<open>None\<close>) on a file that ends early or holds a length prefix
  that no writer produces.
\<close>

type_synonym cfile = "int list"

datatype chunk_t = CT_EMPTY | CT_SOURCE | CT_COMPILED

fun chunk_t_code :: "chunk_t \<Rightarrow> int" where
  "chunk_t_code CT_EMPTY = 0"
| "chunk_t_code CT_SOURCE = 1"
| "chunk_t_code CT_COMPILED = 2"

definition writeByte :: "cfile \<Rightarrow> int \<Rightarrow> cfile" where
  "writeByte outf b = outf @ [b]"

definition readByte :: "cfile \<Rightarrow> (int \<times> cfile) option" where
  "readByte inp = (case inp of [] \<Rightarrow> None | b # rest \<Rightarrow> Some (b, rest))"

definition writeString :: "cfile \<Rightarrow> string \<Rightarrow> nat \<Rightarrow> cfile" where
  "writeString outf s cap =
     (let n = min (length s) cap
      in outf @ int n # map (\<lambda>ch. int (of_char ch)) (take n s))"

definition readString :: "cfile \<Rightarrow> nat \<Rightarrow> (string \<times> cfile) option" where
  "readString inp cap =
     (case inp of
        [] \<Rightarrow> None
      | n # rest \<Rightarrow>
          if n < 0 \<or> int cap < n \<or> int (length rest) < n then None
          else Some (map char_of (take (nat n) rest), drop (nat n) rest))"

definition writeLong :: "cfile \<Rightarrow> int \<Rightarrow> cfile" where
  "writeLong outf v = outf @ [v]"

definition readLong :: "cfile \<Rightarrow> (int \<times> cfile) option" where
  "readLong inp = (case inp of [] \<Rightarrow> None | v # rest \<Rightarrow> Some (v, rest))"

text \<open>
  \<^verbatim>\<open>dlua_chunk::write\<close> and \<^verbatim>\<open>dlua_chunk::read\<close>. \<open>max_size\<close> is the constant
  \<^verbatim>\<open>LUA_CHUNK_MAX_SIZE\<close> and \<open>dcap\<close> the default cap of the two-argument calls of
  \<^verbatim>\<open>writeString\<close> and \<^verbatim>\<open>readString\<close>; both are declared in headers that are not at
  hand and are parameters here. The reader returns the chunk with the rest of the file.
  (\<^verbatim>\<open>write\<close> is a reserved word of Isabelle, hence the longer names.)
\<close>

definition chunk_write :: "nat \<Rightarrow> nat \<Rightarrow> cfile \<Rightarrow> dlua_chunk \<Rightarrow> cfile" where
  "chunk_write max_size dcap outf c =
     (if empty_chunk c then writeByte outf (chunk_t_code CT_EMPTY)
      else
        (let f1 = (if compiled c \<noteq> []
                   then writeString (writeByte outf (chunk_t_code CT_COMPILED))
                          (compiled c) max_size
                   else writeString (writeByte outf (chunk_t_code CT_SOURCE))
                          (chunk c) max_size)
         in writeLong (writeString f1 (file_name c) dcap) (first c)))"

definition chunk_read :: "nat \<Rightarrow> nat \<Rightarrow> cfile \<Rightarrow> dlua_chunk \<Rightarrow> (dlua_chunk \<times> cfile) option" where
  "chunk_read max_size dcap inp c =
     (let c0 = clear c in
      case readByte inp of
        None \<Rightarrow> None
      | Some (t, f1) \<Rightarrow>
          if t = chunk_t_code CT_EMPTY then Some (c0, f1)
          else
            (case (if t = chunk_t_code CT_SOURCE
                   then map_option (\<lambda>(s, f). (c0\<lparr>chunk := s\<rparr>, f)) (readString f1 max_size)
                   else if t = chunk_t_code CT_COMPILED
                   then map_option (\<lambda>(s, f). (c0\<lparr>compiled := s\<rparr>, f)) (readString f1 max_size)
                   else Some (c0, f1)) of
               None \<Rightarrow> None
             | Some (c1, f2) \<Rightarrow>
                 (case readString f2 dcap of
                    None \<Rightarrow> None
                  | Some (fl, f3) \<Rightarrow>
                      (case readLong f3 of
                         None \<Rightarrow> None
                       | Some (v, f4) \<Rightarrow> Some (c1\<lparr>file_name := fl, first := v\<rparr>, f4)))))"

section \<open>Depth ranges set from scripts\<close>

text \<open>
  \<^verbatim>\<open>level_range\<close> as mapdef.h declares it; the branch is the number of the enum value.
  The arguments of a binding are the values on the Lua stack, position 1 first. The map
  a script works on is reached through a userdata handle; the world holds that map's
  depth list next to the file-level \<^verbatim>\<open>dgn_default_depths\<close>.
\<close>

record level_range =
  branch :: int
  shallowest :: int
  deepest :: int
  deny :: bool

datatype lua_value = LuaNil | LuaNumber int | LuaString string | LuaMapHandle

datatype lua_fault = BadArgument nat | ScriptError string

record dgn_world =
  dgn_default_depths :: "level_range list"
  map_depths :: "level_range list"
  map_lines :: "string list"

text \<open>Which vector a \<^verbatim>\<open>depth_ranges &\<close> argument refers to.\<close>

datatype depth_ref = Default_depths | Map_depths

fun get_depths :: "depth_ref \<Rightarrow> dgn_world \<Rightarrow> level_range list" where
  "get_depths Default_depths w = dgn_default_depths w"
| "get_depths Map_depths w = map_depths w"

fun clear_depths :: "depth_ref \<Rightarrow> dgn_world \<Rightarrow> dgn_world" where
  "clear_depths Default_depths w = w\<lparr>dgn_default_depths := []\<rparr>"
| "clear_depths Map_depths w = w\<lparr>map_depths := []\<rparr>"

definition lua_gettop :: "lua_value list \<Rightarrow> nat" where
  "lua_gettop ls = length ls"

definition lua_index :: "lua_value list \<Rightarrow> nat \<Rightarrow> lua_value" where
  "lua_index ls i = (if 1 \<le> i \<and> i \<le> length ls then ls ! (i - 1) else LuaNil)"

definition lua_isnil :: "lua_value list \<Rightarrow> nat \<Rightarrow> bool" where
  "lua_isnil ls i = (lua_index ls i = LuaNil)"

text \<open>
  The checking accessors of the Lua library raise an argument error (\<open>None\<close>) on a value
  of the wrong kind. Lua's conversions between numbers and strings are left out.
\<close>

definition luaL_checkstring :: "lua_value list \<Rightarrow> nat \<Rightarrow> string option" where
  "luaL_checkstring ls i = (case lua_index ls i of LuaString s \<Rightarrow> Some s | _ \<Rightarrow> None)"

definition luaL_checkint :: "lua_value list \<Rightarrow> nat \<Rightarrow> int option" where
  "luaL_checkint ls i = (case lua_index ls i of LuaNumber n \<Rightarrow> Some n | _ \<Rightarrow> None)"

text \<open>
  The inner loop of \<^verbatim>\<open>dgn_add_depths\<close>:
  \<^verbatim>\<open>for (int j = 0, size = frags.size(); i < size; ++i)\<close> with the body
  \<^verbatim>\<open>dgn_default_depths.push_back(level_range::parse(frags[j]))\<close>. It tests and
  advances the outer index \<^verbatim>\<open>i\<close> and returns it with the grown list.
  \<^verbatim>\<open>level_range::parse\<close> (mapdef.cc, not at hand) is the parameter \<open>parse\<close>; it
  throws a string, which the loop turns into a script error.
\<close>

function add_depths_frags ::
  "(string \<Rightarrow> string + level_range) \<Rightarrow> string list \<Rightarrow> nat \<Rightarrow> nat \<Rightarrow> nat \<Rightarrow> level_range list
     \<Rightarrow> lua_fault + (nat \<times> level_range list)" where
  "add_depths_frags parse frags j sz i dd =
     (if i < sz then
        (case parse (frags ! j) of
           Inl err \<Rightarrow> Inl (ScriptError err)
         | Inr r \<Rightarrow> add_depths_frags parse frags j sz (i + 1) (dd @ [r]))
      else Inr (i, dd))"
  by pat_completeness auto
termination
  by (relation "measure (\<lambda>(parse, frags, j, sz, i, dd). sz - i)") auto

declare add_depths_frags.simps [simp del]

text \<open>
  \<^verbatim>\<open>dgn_add_depths(drs, ls, s, e)\<close>; the argument \<open>i\<close> is the running outer index,
  \<open>s\<close> at the call. The body never uses \<^verbatim>\<open>drs\<close>.
\<close>

function dgn_add_depths ::
  "(string \<Rightarrow> string + level_range) \<Rightarrow> depth_ref \<Rightarrow> dgn_world \<Rightarrow> lua_value list \<Rightarrow> nat \<Rightarrow> nat
     \<Rightarrow> lua_fault + dgn_world" where
  "dgn_add_depths parse drs w ls i e =
     (if i \<le> e then
        (case luaL_checkstring ls i of
           None \<Rightarrow> Inl (BadArgument i)
         | Some depth \<Rightarrow>
             (let frags = split_string '','' depth in
              case add_depths_frags parse frags 0 (length frags) i (dgn_default_depths w) of
                Inl err \<Rightarrow> Inl err
              | Inr (i', dd) \<Rightarrow>
                  dgn_add_depths parse drs (w\<lparr>dgn_default_depths := dd\<rparr>) ls (i' + 1) e))
      else Inr w)"
  by pat_completeness auto
termination
proof (relation "measure (\<lambda>(parse, drs, w, ls, i, e). Suc e - i)")
  show "wf (measure (\<lambda>(parse, drs, w, ls, i, e). Suc e - i))"
    by simp
next
  fix parse :: "string \<Rightarrow> string + level_range" and drs w ls and i e :: nat
    and depth frags x and i' :: nat and dd
  assume le: "i \<le> e"
    and inner: "add_depths_frags parse frags 0 (length frags) i (dgn_default_depths w) = Inr x"
    and x: "(i', dd) = x"
  have mono: "add_depths_frags parse frags j sz k acc = Inr (k', acc') \<Longrightarrow> k \<le> k'"
    for j sz k acc k' acc'
  proof (induction parse frags j sz k acc rule: add_depths_frags.induct)
    case (1 parse frags j sz i dd)
    show ?case
    proof (cases "i < sz")
      case True
      with "1.prems" obtain r where r: "parse (frags ! j) = Inr r"
        and rest: "add_depths_frags parse frags j sz (i + 1) (dd @ [r]) = Inr (k', acc')"
        by (auto simp: add_depths_frags.simps [of parse frags j sz i dd] split: sum.splits)
      from "1.IH" [OF True r rest] show ?thesis
        by simp
    next
      case False
      with "1.prems" show ?thesis
        by (simp add: add_depths_frags.simps [of parse frags j sz i dd])
    qed
  qed
  from inner x have "i \<le> i'"
    using mono by metis
  with le show "((parse, drs, w\<lparr>dgn_default_depths := dd\<rparr>, ls, i' + 1, e), (parse, drs, w, ls, i, e))
      \<in> measure (\<lambda>(parse, drs, w, ls, i, e). Suc e - i)"
    by simp
qed

declare dgn_add_depths.simps [simp del]

text \<open>
  \<^verbatim>\<open>dgn_depth_proc(ls, dr, s)\<close>. With fewer than \<open>s\<close> arguments it pushes the
  description of \<open>dr\<close> (\<^verbatim>\<open>dgn_depth_list_string\<close>, built on code that is not at hand:
  the parameter \<open>describe\<close>) and returns it; otherwise it returns nothing.
\<close>

definition dgn_depth_proc ::
  "(string \<Rightarrow> string + level_range) \<Rightarrow> (level_range list \<Rightarrow> string) \<Rightarrow> dgn_world
     \<Rightarrow> lua_value list \<Rightarrow> depth_ref \<Rightarrow> nat \<Rightarrow> lua_fault + (dgn_world \<times> string option)" where
  "dgn_depth_proc parse describe w ls dr s =
     (if lua_gettop ls < s then Inr (w, Some (describe (get_depths dr w)))
      else if lua_isnil ls s then Inr (clear_depths dr w, None)
      else
        (case dgn_add_depths parse dr (clear_depths dr w) ls s (lua_gettop ls) of
           Inl err \<Rightarrow> Inl err
         | Inr w' \<Rightarrow> Inr (w', None)))"

definition dgn_default_depth ::
  "(string \<Rightarrow> string + level_range) \<Rightarrow> (level_range list \<Rightarrow> string) \<Rightarrow> dgn_world
     \<Rightarrow> lua_value list \<Rightarrow> lua_fault + (dgn_world \<times> string option)" where
  "dgn_default_depth parse describe w ls = dgn_depth_proc parse describe w ls Default_depths 1"

definition dgn_depth ::
  "(string \<Rightarrow> string + level_range) \<Rightarrow> (level_range list \<Rightarrow> string) \<Rightarrow> dgn_world
     \<Rightarrow> lua_value list \<Rightarrow> lua_fault + (dgn_world \<times> string option)" where
  "dgn_depth parse describe w ls =
     (case lua_index ls 1 of
        LuaMapHandle \<Rightarrow> dgn_depth_proc parse describe w ls Map_depths 2
      | _ \<Rightarrow> Inl (BadArgument 1))"

text \<open>
  \<^verbatim>\<open>dgn_set_default_depth\<close>, the sibling that walks the fragments of one text with
  its own index. It returns the error text, empty on success, with the new list.
\<close>

fun set_default_depth_frags ::
  "(string \<Rightarrow> string + level_range) \<Rightarrow> string list \<Rightarrow> level_range list
     \<Rightarrow> string \<times> level_range list" where
  "set_default_depth_frags parse [] dd = ([], dd)"
| "set_default_depth_frags parse (frag # frags) dd =
     (case parse frag of
        Inl err \<Rightarrow> (err, dd)
      | Inr r \<Rightarrow> set_default_depth_frags parse frags (dd @ [r]))"

definition dgn_set_default_depth ::
  "(string \<Rightarrow> string + level_range) \<Rightarrow> dgn_world \<Rightarrow> string \<Rightarrow> string \<times> dgn_world" where
  "dgn_set_default_depth parse w s =
     (case set_default_depth_frags parse (split_string '','' s) (dgn_default_depths w) of
        (err, dd) \<Rightarrow> (err, w\<lparr>dgn_default_depths := dd\<rparr>))"

subsection \<open>A depth parser for concrete runs\<close>

text \<open>Reads a fragment as one depth of branch 0; an empty fragment is an error.\<close>

definition depth_of_text :: "string \<Rightarrow> string + level_range" where
  "depth_of_text s =
     (if s = [] then Inl ''Empty depth''
      else Inr \<lparr>branch = 0, shallowest = atoi s, deepest = atoi s, deny = False\<rparr>)"

definition empty_world :: dgn_world where
  "empty_world = \<lparr>dgn_default_depths = [], map_depths = [], map_lines = []\<rparr>"

section \<open>Values used in concrete runs\<close>

definition blank_chunk :: dlua_chunk where
  "blank_chunk = set_chunk (new_chunk ''chunk1'') [CHR 0x20, CHR 0x0A, CHR 0x09]"

text \<open>
  Two messages of the engine with a stack traceback: the first line is the error, the
  second the heading, the rest one line per frame.
\<close>

definition chunk1_marker :: string where
  "chunk1_marker = ''[string '' @ [CHR 0x22] @ ''chunk1'' @ [CHR 0x22] @ '']:''"

definition one_frame_message :: string where
  "one_frame_message = ''boom'' @ [newline] @ ''stack traceback:'' @ [newline]
     @ [CHR 0x09] @ chunk1_marker @ ''2: in main chunk''"

definition traceback_message :: string where
  "traceback_message = ''boom'' @ [newline] @ ''stack traceback:'' @ [newline]
     @ chunk1_marker @ ''2: in f'' @ [newline] @ chunk1_marker @ ''4: in g'' @ [newline]
     @ ''[C]: ?''"

text \<open>At most one of source text and compiled bytecode is non-empty.\<close>

definition one_representation :: "dlua_chunk \<Rightarrow> bool" where
  "one_representation c = (chunk c = [] \<or> compiled c = [])"

section \<open>Vocabulary of the properties\<close>

text \<open>
  A run of \<^verbatim>\<open>add\<close> calls, the physical lines of a text, and the text a run of calls
  produces after a call at line \<open>prev\<close>: for each call the line feeds up to its line,
  one blank and its text.
\<close>

definition add_all :: "dlua_chunk \<Rightarrow> (int \<times> string) list \<Rightarrow> dlua_chunk" where
  "add_all c calls = foldl (\<lambda>c (line, s). add c line s) c calls"

fun text_lines :: "string \<Rightarrow> string list" where
  "text_lines [] = [[]]"
| "text_lines (ch # cs) =
     (if ch = newline then [] # text_lines cs
      else (case text_lines cs of [] \<Rightarrow> [[ch]] | l # ls \<Rightarrow> (ch # l) # ls))"

fun render :: "int \<Rightarrow> (int \<times> string) list \<Rightarrow> string" where
  "render prev [] = []"
| "render prev ((l, t) # cs) = replicate (nat (l - prev)) newline @ '' '' @ t @ render l cs"

text \<open>What the calls of a run wrote for line \<open>n\<close>: each text after one blank.\<close>

definition line_text :: "(int \<times> string) list \<Rightarrow> int \<Rightarrow> string" where
  "line_text calls n = concat (map (\<lambda>(l, t). '' '' @ t) (filter (\<lambda>(l, t). l = n) calls))"

text \<open>
  The test of the loop in \<^verbatim>\<open>rewrite_chunk_errors\<close>, the lines the loop visits (indices
  2 to size - 2) that pass it, and the message built from the first line and a list of
  matching lines.
\<close>

definition mentions_context :: "dlua_chunk \<Rightarrow> string \<Rightarrow> bool" where
  "mentions_context c st = (str_find st (context_tag c) 0 \<noteq> None)"

definition matching_window :: "dlua_chunk \<Rightarrow> string list \<Rightarrow> string list" where
  "matching_window c lines =
     filter (mentions_context c) (take (length lines - 3) (drop 2 lines))"

definition merged_message :: "dlua_chunk \<Rightarrow> string \<Rightarrow> string list \<Rightarrow> string" where
  "merged_message c l0 ms =
     (case ms of
        [] \<Rightarrow> l0
      | m # rest \<Rightarrow>
          get_chunk_prefix c m @ '': '' @ l0
            @ concat (map (\<lambda>st. newline # rewrite_chunk_prefix c st) rest))"

section \<open>Connectivity of points on a map\<close>

text \<open>
  Modelled from the spec: \<^verbatim>\<open>map_lines::width\<close> and \<^verbatim>\<open>map_lines::height\<close> are defined in
  mapdef.cc, which is not part of the sources at hand. The spec's grid is a sequence of
  text rows with "width/height derived": the height is the number of rows, the width the
  length of the longest row.
\<close>

type_synonym coord_def = "int \<times> int"

definition map_width :: "dgn_world \<Rightarrow> int" where
  "map_width w = int (foldr max (map length (map_lines w)) 0)"

definition map_height :: "dgn_world \<Rightarrow> int" where
  "map_height w = int (length (map_lines w))"

text \<open>
  \<^verbatim>\<open>map_def::map_bounds_check\<close> of mapdef.h: a point is in range when both coordinates
  lie in the rectangle of the map.
\<close>

definition in_rect :: "int \<Rightarrow> int \<Rightarrow> coord_def \<Rightarrow> bool" where
  "in_rect wd ht c = (fst c \<ge> 0 \<and> fst c < wd \<and> snd c \<ge> 0 \<and> snd c < ht)"

definition map_bounds_check :: "dgn_world \<Rightarrow> coord_def \<Rightarrow> bool" where
  "map_bounds_check w c = in_rect (map_width w) (map_height w) c"

text \<open>
  Modelled from the spec: the template \<^verbatim>\<open>flood_find\<close> and \<^verbatim>\<open>map_feature\<close> are not part
  of the sources at hand. Spec 4.3: the checker is "generic over two collaborators", a
  feature classifier (is the point traversable) and a bounds checker; it runs a
  "breadth-first search", "expanding to the four (or eight, per policy) orthogonal
  neighbors, visiting each coordinate at most once, short-circuiting as soon as every seed
  has been subsumed" into the component of the start point, "or until the frontier is
  exhausted". The classifier is the parameter \<open>trav\<close>, the policy the flag \<open>diag\<close>,
  and the bounds are those of \<^verbatim>\<open>map_bounds_check\<close>, the checker
  \<^verbatim>\<open>dgn_points_connected\<close> passes. The search keeps the cells it has visited and the
  queue of cells whose neighbours it has not yet looked at; the start point is visited
  from the beginning.
\<close>

definition adjacent :: "bool \<Rightarrow> coord_def \<Rightarrow> coord_def list" where
  "adjacent diag c =
     (case c of (x, y) \<Rightarrow>
        [(x + 1, y), (x - 1, y), (x, y + 1), (x, y - 1)]
        @ (if diag then [(x + 1, y + 1), (x + 1, y - 1), (x - 1, y + 1), (x - 1, y - 1)]
           else []))"

definition fresh_cells ::
  "(coord_def \<Rightarrow> bool) \<Rightarrow> int \<Rightarrow> int \<Rightarrow> bool \<Rightarrow> coord_def list \<Rightarrow> coord_def \<Rightarrow> coord_def list" where
  "fresh_cells trav wd ht diag visited c =
     filter (\<lambda>d. in_rect wd ht d \<and> trav d \<and> d \<notin> set visited) (remdups (adjacent diag c))"

function flood ::
  "(coord_def \<Rightarrow> bool) \<Rightarrow> int \<Rightarrow> int \<Rightarrow> bool \<Rightarrow> coord_def list \<Rightarrow> coord_def list
     \<Rightarrow> coord_def list \<Rightarrow> bool" where
  "flood trav wd ht diag seeds visited queue =
     (if list_all (\<lambda>s. s \<in> set visited) seeds then True
      else
        (case queue of
           [] \<Rightarrow> False
         | c # rest \<Rightarrow>
             flood trav wd ht diag seeds (visited @ fresh_cells trav wd ht diag visited c)
               (rest @ fresh_cells trav wd ht diag visited c)))"
  by pat_completeness auto
termination
proof (relation "measures [\<lambda>(trav, wd, ht, diag, seeds, visited, queue).
                             card ({c. in_rect wd ht c} - set visited),
                           \<lambda>(trav, wd, ht, diag, seeds, visited, queue). length queue]")
  show "wf (measures [\<lambda>(trav, wd, ht, diag, seeds, visited, queue).
                         card ({c. in_rect wd ht c} - set visited),
                       \<lambda>(trav, wd, ht, diag, seeds, visited, queue). length queue])"
    by simp
next
  fix trav :: "coord_def \<Rightarrow> bool" and wd ht :: int and diag :: bool
    and seeds visited queue :: "coord_def list" and c :: coord_def and rest :: "coord_def list"
  assume q: "queue = c # rest"
  let ?fresh = "fresh_cells trav wd ht diag visited c"
  let ?rect = "{c. in_rect wd ht c}"
  have "?rect = {0..<wd} \<times> {0..<ht}"
    by (auto simp: in_rect_def)
  then have fin: "finite ?rect"
    by simp
  show "((trav, wd, ht, diag, seeds, visited @ ?fresh, rest @ ?fresh),
         (trav, wd, ht, diag, seeds, visited, queue))
        \<in> measures [\<lambda>(trav, wd, ht, diag, seeds, visited, queue).
                        card ({c. in_rect wd ht c} - set visited),
                      \<lambda>(trav, wd, ht, diag, seeds, visited, queue). length queue]"
  proof (cases "?fresh = []")
    case True
    with q show ?thesis
      by simp
  next
    case False
    then obtain d where d: "d \<in> set ?fresh"
      by (cases ?fresh) auto
    then have "d \<in> ?rect - set visited" and "d \<notin> ?rect - set (visited @ ?fresh)"
      by (auto simp: fresh_cells_def)
    moreover have "?rect - set (visited @ ?fresh) \<subseteq> ?rect - set visited"
      by auto
    ultimately have "?rect - set (visited @ ?fresh) \<subset> ?rect - set visited"
      by blast
    with fin have "card (?rect - set (visited @ ?fresh)) < card (?rect - set visited)"
      by (intro psubset_card_mono) auto
    then show ?thesis
      by simp
  qed
qed

declare flood.simps [simp del]

definition points_connected_from ::
  "(coord_def \<Rightarrow> bool) \<Rightarrow> int \<Rightarrow> int \<Rightarrow> bool \<Rightarrow> coord_def list \<Rightarrow> coord_def \<Rightarrow> bool" where
  "points_connected_from trav wd ht diag seeds start =
     flood trav wd ht diag seeds [start] [start]"

text \<open>
  \<^verbatim>\<open>dgn_points_connected\<close>. The loop \<^verbatim>\<open>for (i = 4; i < nargs; i += 2)\<close> collects the
  seed points from the arguments; the start point is read from positions 2 and 3 after
  it. The feature classifier of the map is the parameter \<open>traversable\<close>; the bounds
  handed to the search are the width and height that \<open>map_bounds_check\<close> tests.
\<close>

function seed_points ::
  "lua_value list \<Rightarrow> nat \<Rightarrow> nat \<Rightarrow> coord_def list \<Rightarrow> lua_fault + coord_def list" where
  "seed_points ls i nargs acc =
     (if i < nargs then
        (case luaL_checkint ls i of
           None \<Rightarrow> Inl (BadArgument i)
         | Some x \<Rightarrow>
             (case luaL_checkint ls (i + 1) of
                None \<Rightarrow> Inl (BadArgument (i + 1))
              | Some y \<Rightarrow> seed_points ls (i + 2) nargs (acc @ [(x, y)])))
      else Inr acc)"
  by pat_completeness auto
termination
  by (relation "measure (\<lambda>(ls, i, nargs, acc). nargs - i)") auto

declare seed_points.simps [simp del]

definition dgn_points_connected ::
  "(dgn_world \<Rightarrow> coord_def \<Rightarrow> bool) \<Rightarrow> bool \<Rightarrow> dgn_world \<Rightarrow> lua_value list \<Rightarrow> lua_fault + bool" where
  "dgn_points_connected traversable diag w ls =
     (case lua_index ls 1 of
        LuaMapHandle \<Rightarrow>
          (let nargs = lua_gettop ls in
           if nargs < 5
           then Inl (ScriptError ''Not enough points to test connectedness (need at least two)'')
           else
             (case seed_points ls 4 nargs [] of
                Inl err \<Rightarrow> Inl err
              | Inr seeds \<Rightarrow>
                  (case luaL_checkint ls 2 of
                     None \<Rightarrow> Inl (BadArgument 2)
                   | Some x \<Rightarrow>
                       (case luaL_checkint ls 3 of
                          None \<Rightarrow> Inl (BadArgument 3)
                        | Some y \<Rightarrow>
                            Inr (points_connected_from (traversable w) (map_width w)
                                   (map_height w) diag seeds (x, y))))))
      | _ \<Rightarrow> Inl (BadArgument 1))"

text \<open>
  What the spec asks of the result: a point is reachable from the start point when a
  chain of neighbouring cells leads to it, each cell after the start in range and
  traversable.
\<close>

inductive reach :: "(coord_def \<Rightarrow> bool) \<Rightarrow> int \<Rightarrow> int \<Rightarrow> bool \<Rightarrow> coord_def \<Rightarrow> coord_def \<Rightarrow> bool"
  for trav :: "coord_def \<Rightarrow> bool" and wd ht :: int and diag :: bool and start :: coord_def where
  reach_start: "reach trav wd ht diag start start"
| reach_step: "reach trav wd ht diag start c \<Longrightarrow> d \<in> set (adjacent diag c) \<Longrightarrow> in_rect wd ht d
     \<Longrightarrow> trav d \<Longrightarrow> reach trav wd ht diag start d"

text \<open>The arguments that spell a list of points, and the invariant of the search.\<close>

definition point_args :: "coord_def list \<Rightarrow> lua_value list" where
  "point_args ps = concat (map (\<lambda>(a, b). [LuaNumber a, LuaNumber b]) ps)"

definition flood_inv ::
  "(coord_def \<Rightarrow> bool) \<Rightarrow> int \<Rightarrow> int \<Rightarrow> bool \<Rightarrow> coord_def \<Rightarrow> coord_def list \<Rightarrow> coord_def list
     \<Rightarrow> bool" where
  "flood_inv trav wd ht diag start visited queue =
     (set queue \<subseteq> set visited \<and> start \<in> set visited
      \<and> (\<forall>v\<in>set visited. reach trav wd ht diag start v)
      \<and> (\<forall>v\<in>set visited - set queue. \<forall>d\<in>set (adjacent diag v).
            in_rect wd ht d \<and> trav d \<longrightarrow> d \<in> set visited))"

subsection \<open>Two rooms for concrete runs\<close>

text \<open>A classifier that takes every glyph but \<^verbatim>\<open>x\<close> (rock wall) as traversable.\<close>

definition glyph_traversable :: "dgn_world \<Rightarrow> coord_def \<Rightarrow> bool" where
  "glyph_traversable w c =
     (case c of (x, y) \<Rightarrow>
        0 \<le> y \<and> nat y < length (map_lines w) \<and> 0 \<le> x \<and> nat x < length (map_lines w ! nat y)
        \<and> map_lines w ! nat y ! nat x \<noteq> CHR ''x'')"

definition open_room :: dgn_world where
  "open_room = \<lparr>dgn_default_depths = [], map_depths = [], map_lines = [''...'', ''...'', ''...'']\<rparr>"

definition walled_room :: dgn_world where
  "walled_room = \<lparr>dgn_default_depths = [], map_depths = [], map_lines = [''.x.'', ''.x.'', ''.x.'']\<rparr>"

section \<open>Call depth of the script engine wrapper\<close>

text \<open>
  The members of \<^verbatim>\<open>CLua\<close> that govern a managed interpreter, as clua.h declares them.
\<close>

record CLua =
  managed_vm :: bool
  shutting_down :: bool
  throttle_unit_lines :: int
  throttle_sleep_ms :: int
  throttle_sleep_start :: int
  throttle_sleep_end :: int
  n_throttle_sleeps :: int
  mixed_call_depth :: int
  lua_call_depth :: int
  max_mixed_call_depth :: int
  max_lua_call_depth :: int
  memory_used :: int

text \<open>
  Modelled from the spec: the member functions of \<^verbatim>\<open>CLua\<close> are defined in clua.cc,
  which is not part of the sources at hand. Spec 4.5: the wrapper tracks
  "mixed_call_depth (native to script to native nesting depth)" and "lua_call_depth
  (script-only nesting)", and "if mixed_call_depth or lua_call_depth exceeds a configured
  ceiling, further script invocation fails with a StackOverflow-class condition rather
  than recursing unboundedly". A script body is given by the nested invocations it makes,
  each from native code or from script code. An invocation raises the counter of its
  kind while its body runs and restores it afterwards; the ceiling is the deepest nesting
  allowed, so an invocation on a wrapper with a counter at (or beyond) its ceiling fails
  without running its body. A failure ends the bodies around it.
\<close>

datatype wrapper_fault = StackOverflow

datatype call_kind = From_native | From_script

datatype script = Script "(call_kind \<times> script) list"

fun enter :: "call_kind \<Rightarrow> CLua \<Rightarrow> CLua" where
  "enter From_native w = w\<lparr>mixed_call_depth := mixed_call_depth w + 1\<rparr>"
| "enter From_script w = w\<lparr>lua_call_depth := lua_call_depth w + 1\<rparr>"

fun leave :: "call_kind \<Rightarrow> CLua \<Rightarrow> CLua" where
  "leave From_native w = w\<lparr>mixed_call_depth := mixed_call_depth w - 1\<rparr>"
| "leave From_script w = w\<lparr>lua_call_depth := lua_call_depth w - 1\<rparr>"

definition at_ceiling :: "CLua \<Rightarrow> bool" where
  "at_ceiling w = (max_mixed_call_depth w \<le> mixed_call_depth w
                   \<or> max_lua_call_depth w \<le> lua_call_depth w)"

fun invoke :: "CLua \<Rightarrow> call_kind \<Rightarrow> script \<Rightarrow> wrapper_fault option \<times> CLua"
  and run_calls :: "CLua \<Rightarrow> (call_kind \<times> script) list \<Rightarrow> wrapper_fault option \<times> CLua" where
  "invoke w k (Script calls) =
     (if at_ceiling w then (Some StackOverflow, w)
      else (case run_calls (enter k w) calls of (f, w') \<Rightarrow> (f, leave k w')))"
| "run_calls w [] = (None, w)"
| "run_calls w ((k, s) # rest) =
     (case invoke w k s of
        (Some f, w') \<Rightarrow> (Some f, w')
      | (None, w') \<Rightarrow> run_calls w' rest)"

fun nest :: "call_kind \<Rightarrow> nat \<Rightarrow> script" where
  "nest k 0 = Script []"
| "nest k (Suc n) = Script [(k, nest k n)]"

definition fresh_wrapper :: CLua where
  "fresh_wrapper =
     \<lparr>managed_vm = True, shutting_down = False, throttle_unit_lines = 10000,
      throttle_sleep_ms = 0, throttle_sleep_start = 2, throttle_sleep_end = 800,
      n_throttle_sleeps = 0, mixed_call_depth = 0, lua_call_depth = 0,
      max_mixed_call_depth = 8, max_lua_call_depth = 3, memory_used = 0\<rparr>"

section \<open>Properties of loading\<close>

lemma trimmed_string_blank: "\<forall>ch\<in>set s. is_blank ch \<Longrightarrow> trimmed_string s = []"
  by (auto simp: trimmed_string_def dest: set_dropWhileD)

lemma source_chunk_eq:
  "source_chunk = \<lparr>file_name = ''vault.des'', chunk = '' return 1'', compiled = [],
      context_tag = ''chunk1'', first = 5, last_line = 5, error = []\<rparr>"
  by (simp add: source_chunk_def add_def set_file_def new_chunk_def clear_def)

lemma compiled_chunk_eq:
  "compiled_chunk = \<lparr>file_name = ''vault.des'', chunk = [], compiled = ''LuaQ'',
      context_tag = ''chunk1'', first = 5, last_line = 5, error = []\<rparr>"
  by (simp add: compiled_chunk_def source_chunk_eq load_def empty_chunk_def trimmed_string_def
      is_blank_def c_str_def check_op_def log_engine_def)

text \<open>
  Claim C9. A chunk without compiled bytecode whose source text is empty or holds only
  blanks, tabs, line feeds and carriage returns counts as empty: \<open>load\<close> returns - 1000
  and \<open>load_call\<close> returns 0, and in both the interpreter state comes back as it went
  in, so nothing was passed to the engine and no function was called. The only change
  to the chunk is that the blank source text is cleared.
\<close>

theorem empty_chunk_is_skipped:
  assumes "compiled c = []" and "\<forall>ch\<in>set (chunk c). is_blank ch"
  shows "empty_chunk c \<and> load L interp c = (- 1000, interp, c\<lparr>chunk := []\<rparr>)
    \<and> load_call L interp c fn = (0, interp, c\<lparr>chunk := []\<rparr>)"
proof -
  from assms have e: "empty_chunk c"
    by (simp add: empty_chunk_def trimmed_string_blank)
  with assms(1) have l: "load L interp c = (- 1000, interp, c\<lparr>chunk := []\<rparr>)"
    by (simp add: load_def)
  then have "load_call L interp c fn = (0, interp, c\<lparr>chunk := []\<rparr>)"
    by (simp add: load_call_def)
  with e l show ?thesis
    by simp
qed

theorem empty_chunk_is_skipped_witness:
  "compiled blank_chunk = [] \<and> list_all is_blank (chunk blank_chunk)
   \<and> load log_engine [] blank_chunk = (- 1000, [], blank_chunk\<lparr>chunk := []\<rparr>)
   \<and> load_call log_engine [] blank_chunk (Some ''main'') = (0, [], blank_chunk\<lparr>chunk := []\<rparr>)"
proof -
  have h1: "compiled blank_chunk = []"
    by (simp add: blank_chunk_def set_chunk_def new_chunk_def clear_def)
  have h2: "\<forall>ch\<in>set (chunk blank_chunk). is_blank ch"
    by (simp add: blank_chunk_def set_chunk_def new_chunk_def clear_def is_blank_def)
  from empty_chunk_is_skipped [OF h1 h2, of log_engine "[]" "Some ''main''"] h1 h2
  show ?thesis
    by (simp add: list_all_iff)
qed

text \<open>
  Claim C5. Compilation is one-way and memoizing. The premises only name what the engine
  returns. A chunk that holds compiled bytecode is loaded by one call of
  \<open>loadbuffer\<close> on that bytecode: the interpreter state is the one that call returns,
  and file name, source text, bytecode, context and line numbers of the chunk are as
  before (the last-error text is refreshed from the engine, as after every engine call).
  A chunk in source state whose load succeeds (status 0) ends with the dumped bytecode in
  \<open>compiled\<close> and an empty source text.
\<close>

theorem load_is_memoizing:
  assumes "loadbuffer L interp (compiled c) (c_str (context_tag c)) = (rb, ib)"
    and "loadstring L interp (c_str (chunk c)) (c_str (context_tag c)) = (rs, i1)"
    and "lua_dump L i1 = (rd, out, i2)"
  shows "(compiled c \<noteq> [] \<longrightarrow> load L interp c = (rb, ib, c\<lparr>error := interp_error L ib\<rparr>))
    \<and> (compiled c = [] \<and> \<not> empty_chunk c \<and> fst (load L interp c) = 0 \<longrightarrow>
         load L interp c = (0, i2, c\<lparr>error := interp_error L i1, compiled := out, chunk := []\<rparr>))"
  using assms by (auto simp: load_def check_op_def split: if_splits)

theorem load_is_memoizing_witness:
  "load log_engine [] compiled_chunk = (0, [''loadbuffer:LuaQ''], compiled_chunk)
   \<and> compiled source_chunk = [] \<and> \<not> empty_chunk source_chunk
   \<and> load log_engine [] source_chunk =
       (0, [''loadstring: return 1'', ''dump''], source_chunk\<lparr>compiled := ''LuaQ'', chunk := []\<rparr>)"
proof -
  have b1: "loadbuffer log_engine [] (compiled compiled_chunk) (c_str (context_tag compiled_chunk))
      = (0, [''loadbuffer:LuaQ''])"
    by (simp add: log_engine_def compiled_chunk_eq)
  have s1: "loadstring log_engine [] (c_str (chunk compiled_chunk))
      (c_str (context_tag compiled_chunk)) = (0, [''loadstring:''])"
    by (simp add: log_engine_def compiled_chunk_eq c_str_def)
  have d1: "lua_dump log_engine [''loadstring:''] = (0, ''LuaQ'', [''loadstring:'', ''dump''])"
    by (simp add: log_engine_def)
  have b2: "loadbuffer log_engine [] (compiled source_chunk) (c_str (context_tag source_chunk))
      = (0, [''loadbuffer:''])"
    by (simp add: log_engine_def source_chunk_eq)
  have s2: "loadstring log_engine [] (c_str (chunk source_chunk))
      (c_str (context_tag source_chunk)) = (0, [''loadstring: return 1''])"
    by (simp add: log_engine_def source_chunk_eq c_str_def)
  have d2: "lua_dump log_engine [''loadstring: return 1'']
      = (0, ''LuaQ'', [''loadstring: return 1'', ''dump''])"
    by (simp add: log_engine_def)
  have ne: "compiled compiled_chunk \<noteq> []"
    by (simp add: compiled_chunk_eq)
  have src: "compiled source_chunk = [] \<and> \<not> empty_chunk source_chunk"
    by (simp add: source_chunk_eq empty_chunk_def trimmed_string_def is_blank_def)
  have ok: "fst (load log_engine [] source_chunk) = 0"
    by (simp add: load_def source_chunk_eq empty_chunk_def trimmed_string_def is_blank_def
        c_str_def check_op_def log_engine_def)
  have e1: "interp_error log_engine [''loadbuffer:LuaQ''] = []"
    and e2: "interp_error log_engine [''loadstring: return 1''] = []"
    by (simp_all add: log_engine_def)
  from load_is_memoizing [OF b1 s1 d1] ne e1
  have p1: "load log_engine [] compiled_chunk = (0, [''loadbuffer:LuaQ''], compiled_chunk)"
    by (simp add: compiled_chunk_eq)
  from load_is_memoizing [OF b2 s2 d2] src ok e2
  have p2: "load log_engine [] source_chunk =
       (0, [''loadstring: return 1'', ''dump''], source_chunk\<lparr>compiled := ''LuaQ'', chunk := []\<rparr>)"
    by (simp add: source_chunk_eq)
  from p1 p2 src show ?thesis
    by simp
qed

section \<open>Source text and bytecode of a chunk\<close>

lemma add_compiled: "compiled (add c line s) = compiled c"
  by (simp add: add_def Let_def split: prod.splits)

lemma load_one_representation:
  "one_representation c \<Longrightarrow> one_representation (snd (snd (load L interp c)))"
  by (auto simp: one_representation_def load_def check_op_def split: prod.splits)

lemma load_call_one_representation:
  assumes "one_representation c"
  shows "one_representation (snd (snd (load_call L interp c fn)))"
proof -
  obtain err i1 c1 where l: "load L interp c = (err, i1, c1)"
    by (cases "load L interp c") auto
  with load_one_representation [OF assms, of L interp] have "one_representation c1"
    by simp
  with l show ?thesis
    by (auto simp: load_call_def check_op_def one_representation_def split: prod.splits)
qed

lemma chunk_read_one_representation:
  "chunk_read max_size dcap inp c = Some (c', rest) \<Longrightarrow> one_representation c'"
  by (auto simp: chunk_read_def one_representation_def clear_def Let_def
      split: option.splits if_splits prod.splits)

text \<open>
  Claim C4, as the code has it. \<open>clear\<close> leaves at most one of source text and
  bytecode non-empty, and \<open>load\<close>, \<open>load_call\<close> and reading a chunk from a file keep
  it so. \<open>set_chunk\<close> and \<open>add\<close> keep it only for a chunk that holds no bytecode:
  \<open>set_chunk\<close> replaces the source text and touches nothing else, so the bytecode of
  a compiled chunk stays.
\<close>

theorem set_chunk_keeps_compiled:
  "one_representation (clear c)
   \<and> (one_representation c \<longrightarrow> one_representation (snd (snd (load L interp c))))
   \<and> (one_representation c \<longrightarrow> one_representation (snd (snd (load_call L interp c fn))))
   \<and> (chunk_read max_size dcap inp c = Some (c', rest) \<longrightarrow> one_representation c')
   \<and> (compiled c = [] \<longrightarrow> one_representation (set_chunk c s) \<and> one_representation (add c line s))
   \<and> set_chunk c s = c\<lparr>chunk := s\<rparr>"
  using load_one_representation [of c L interp] load_call_one_representation [of c L interp fn]
    chunk_read_one_representation [of max_size dcap inp c c' rest]
  by (simp add: one_representation_def clear_def set_chunk_def add_compiled)

text \<open>
  The claim's words fail on a chunk that was compiled by \<open>load\<close>: after
  \<open>set_chunk\<close> it holds the new source text next to the old bytecode, and the next
  \<open>load\<close> hands the old bytecode to the engine.
\<close>

theorem set_chunk_keeps_compiled_counterexample:
  "one_representation compiled_chunk
   \<and> compiled (set_chunk compiled_chunk ''return 2'') = ''LuaQ''
   \<and> chunk (set_chunk compiled_chunk ''return 2'') = ''return 2''
   \<and> \<not> one_representation (set_chunk compiled_chunk ''return 2'')
   \<and> load log_engine [] (set_chunk compiled_chunk ''return 2'')
       = (0, [''loadbuffer:LuaQ''], set_chunk compiled_chunk ''return 2'')"
  by (simp add: compiled_chunk_eq set_chunk_def one_representation_def load_def check_op_def
      log_engine_def)

theorem set_chunk_keeps_compiled_witness:
  "one_representation (clear source_chunk)
   \<and> one_representation source_chunk
   \<and> one_representation (snd (snd (load log_engine [] source_chunk)))
   \<and> one_representation (snd (snd (load_call log_engine [] source_chunk None)))
   \<and> chunk_read 1 1 [0] source_chunk = Some (clear source_chunk, [])
   \<and> compiled source_chunk = []
   \<and> one_representation (set_chunk source_chunk ''return 2'')
   \<and> one_representation (add source_chunk 6 ''return 2'')"
proof -
  have h1: "one_representation source_chunk" and h2: "compiled source_chunk = []"
    by (simp_all add: source_chunk_eq one_representation_def)
  have h3: "chunk_read 1 1 [0] source_chunk = Some (clear source_chunk, [])"
    by (simp add: chunk_read_def readByte_def)
  from set_chunk_keeps_compiled [of source_chunk log_engine "[]" None 1 1 "[0]"
      "clear source_chunk" "[]" "''return 2''" 6] h1 h2 h3
  show ?thesis
    by (simp add: set_chunk_def)
qed

section \<open>Round trip through the binary format\<close>

lemma chunk_write_compiled:
  assumes "compiled c \<noteq> []"
  shows "chunk_write max_size dcap [] c =
    2 # int (min (length (compiled c)) max_size)
      # map (\<lambda>ch. int (of_char ch)) (take max_size (compiled c))
      @ int (min (length (file_name c)) dcap)
      # map (\<lambda>ch. int (of_char ch)) (take dcap (file_name c)) @ [first c]"
  using assms
  by (simp add: chunk_write_def empty_chunk_def writeByte_def writeString_def writeLong_def
      Let_def min_def)

lemma readString_written:
  "readString (int (min (length s) cap) # map (\<lambda>ch. int (of_char ch)) (take cap s) @ rest) cap
    = Some (take cap s, rest)"
  by (simp add: readString_def min_def map_idI comp_def)

lemma chunk_read_written:
  assumes "compiled c \<noteq> []"
  shows "chunk_read max_size dcap (chunk_write max_size dcap [] c @ rest) d =
    Some ((clear d)\<lparr>compiled := take max_size (compiled c),
                    file_name := take dcap (file_name c), first := first c\<rparr>, rest)"
  by (simp add: chunk_write_compiled [OF assms] chunk_read_def readByte_def readString_written
      readLong_def Let_def)

text \<open>
  Claim C1, as the code has it. A chunk that holds compiled bytecode no longer than
  \<^verbatim>\<open>LUA_CHUNK_MAX_SIZE\<close> and a file name no longer than the default cap is read back
  with the same bytecode, file name and line offset, and the reader stops where the
  writer stopped. The reader starts from a cleared chunk, so nothing else survives.
\<close>

theorem chunk_round_trip:
  assumes "compiled c \<noteq> []" and "length (compiled c) \<le> max_size"
    and "length (file_name c) \<le> dcap"
  shows "chunk_read max_size dcap (chunk_write max_size dcap [] c @ rest) d =
    Some ((clear d)\<lparr>compiled := compiled c, file_name := file_name c, first := first c\<rparr>,
          rest)"
  using chunk_read_written [OF assms(1), of max_size dcap rest d] assms(2,3) by simp

text \<open>
  Bytecode longer than the cap is cut when written (\<open>chunk_read_written\<close> shows it
  for every cap): with a cap of three bytes the four bytes \<^verbatim>\<open>LuaQ\<close> come back as
  \<^verbatim>\<open>Lua\<close>, and with a cap of 65535 bytes a bytecode of 65536 bytes comes back one
  byte short.
\<close>

theorem chunk_round_trip_counterexample:
  "compiled compiled_chunk = ''LuaQ''
   \<and> chunk_read 3 200 (chunk_write 3 200 [] compiled_chunk) (new_chunk ''chunk1'') =
       Some ((new_chunk ''chunk1'')\<lparr>compiled := ''Lua'', file_name := ''vault.des'',
                                     first := 5\<rparr>, [])
   \<and> chunk_read 65535 200
       (chunk_write 65535 200 [] (compiled_chunk\<lparr>compiled := replicate 65536 (CHR ''L'')\<rparr>))
       (new_chunk ''chunk1'') =
       Some ((new_chunk ''chunk1'')\<lparr>compiled := replicate 65535 (CHR ''L''),
                                     file_name := ''vault.des'', first := 5\<rparr>, [])"
  using chunk_read_written [of compiled_chunk 3 200 "[]" "new_chunk ''chunk1''"]
    chunk_read_written [of "compiled_chunk\<lparr>compiled := replicate 65536 (CHR ''L'')\<rparr>"
      65535 200 "[]" "new_chunk ''chunk1''"]
  by (simp add: compiled_chunk_eq new_chunk_def clear_def)

theorem chunk_round_trip_witness:
  "chunk_read 100 200 (chunk_write 100 200 [] compiled_chunk) (new_chunk ''other'') =
     Some (\<lparr>file_name = ''vault.des'', chunk = [], compiled = ''LuaQ'',
            context_tag = ''other'', first = 5, last_line = - 1, error = []\<rparr>, [])"
proof -
  have "compiled compiled_chunk \<noteq> []" and "length (compiled compiled_chunk) \<le> 100"
    and "length (file_name compiled_chunk) \<le> 200"
    by (simp_all add: compiled_chunk_eq)
  from chunk_round_trip [OF this, of "[]" "new_chunk ''other''"] show ?thesis
    by (simp add: compiled_chunk_eq new_chunk_def clear_def)
qed

section \<open>Line numbers kept by \<open>add\<close>\<close>

lemma add_newlines_eq:
  "add_newlines lst line ch = (max lst line + 1, ch @ replicate (nat (line - lst)) newline)"
proof (induction lst line ch rule: add_newlines.induct)
  case (1 lst line ch)
  show ?case
  proof (cases "lst < line")
    case True
    then have "nat (line - lst) = Suc (nat (line - (lst + 1)))"
      by simp
    with True "1.IH" show ?thesis
      by (simp add: add_newlines.simps [of lst line ch] replicate_append_same)
  next
    case False
    then show ?thesis
      by (simp add: add_newlines.simps [of lst line ch])
  qed
qed

lemma add_eq:
  "add c line s =
     c\<lparr>first := (if first c = - 1 then line else first c),
       chunk := chunk c @ (if last_line c = - 1 then []
                           else replicate (nat (line - last_line c)) newline) @ '' '' @ s,
       last_line := line\<rparr>"
  by (simp add: add_def add_newlines_eq Let_def)

lemma add_all_from:
  assumes "first c \<noteq> - 1" and "last_line c \<noteq> - 1" and "\<forall>(l, t)\<in>set calls. l \<noteq> - 1"
  shows "add_all c calls =
    c\<lparr>chunk := chunk c @ render (last_line c) calls,
      last_line := (if calls = [] then last_line c else fst (last calls))\<rparr>"
  using assms
proof (induction calls arbitrary: c)
  case Nil
  then show ?case
    by (simp add: add_all_def)
next
  case (Cons a calls)
  obtain l t where a: "a = (l, t)"
    by (cases a) auto
  from Cons.prems a have l: "l \<noteq> - 1"
    by simp
  have step: "add_all c (a # calls) = add_all (add c l t) calls"
    by (simp add: add_all_def a)
  have f: "first (add c l t) \<noteq> - 1" and la: "last_line (add c l t) \<noteq> - 1"
    using Cons.prems(1) l by (simp_all add: add_eq)
  from Cons.prems(3) have rest: "\<forall>(l, t)\<in>set calls. l \<noteq> - 1"
    by simp
  show ?case
    unfolding step Cons.IH [OF f la rest]
    using Cons.prems(1,2) by (simp add: add_eq a)
qed

lemma add_all_clear:
  assumes "\<forall>(l, t)\<in>set ((l0, t0) # rest). l \<noteq> - 1"
  shows "add_all (clear c) ((l0, t0) # rest) =
    (clear c)\<lparr>first := l0, chunk := render l0 ((l0, t0) # rest),
               last_line := fst (last ((l0, t0) # rest))\<rparr>"
proof -
  let ?c1 = "add (clear c) l0 t0"
  have c1: "?c1 = (clear c)\<lparr>first := l0, chunk := '' '' @ t0, last_line := l0\<rparr>"
    by (simp add: add_eq clear_def)
  from assms have l0: "l0 \<noteq> - 1" and rest: "\<forall>(l, t)\<in>set rest. l \<noteq> - 1"
    by simp_all
  have "add_all (clear c) ((l0, t0) # rest) = add_all ?c1 rest"
    by (simp add: add_all_def)
  also have "\<dots> = ?c1\<lparr>chunk := chunk ?c1 @ render (last_line ?c1) rest,
      last_line := (if rest = [] then last_line ?c1 else fst (last rest))\<rparr>"
    using l0 rest by (intro add_all_from) (simp_all add: c1)
  finally show ?thesis
    by (simp add: c1)
qed

lemma text_lines_nonempty: "text_lines s \<noteq> []"
  by (induction s) (auto split: list.splits)

lemma text_lines_append:
  "newline \<notin> set p \<Longrightarrow> text_lines (p @ q) = (p @ hd (text_lines q)) # tl (text_lines q)"
proof (induction p)
  case Nil
  then show ?case
    using text_lines_nonempty [of q] by simp
next
  case (Cons a p)
  then show ?case
    by auto
qed

lemma text_lines_newlines: "text_lines (replicate n newline @ q) = replicate n [] @ text_lines q"
  by (induction n) simp_all

lemma text_lines_plain: "newline \<notin> set p \<Longrightarrow> text_lines p = [p]"
  using text_lines_append [of p "[]"] by simp

lemma line_text_later:
  assumes "\<forall>(l, t)\<in>set cs. n < l"
  shows "line_text cs n = []"
  using assms by (induction cs) (auto simp: line_text_def)

lemma text_lines_render:
  assumes "sorted (prev # map fst cs)" and "newline \<notin> set p"
    and "\<forall>(l, t)\<in>set cs. newline \<notin> set t"
  shows "length (text_lines (p @ render prev cs))
      = nat ((if cs = [] then prev else fst (last cs)) - prev) + 1
    \<and> (\<forall>k. int k \<le> (if cs = [] then prev else fst (last cs)) - prev \<longrightarrow>
          text_lines (p @ render prev cs) ! k
            = (if k = 0 then p else []) @ line_text cs (prev + int k))"
  using assms
proof (induction cs arbitrary: prev p)
  case Nil
  then show ?case
    by (simp add: text_lines_plain line_text_def)
next
  case (Cons a cs)
  obtain l t where a: "a = (l, t)"
    by (cases a) auto
  let ?end = "if cs = [] then l else fst (last cs)"
  from Cons.prems(1) a have le: "prev \<le> l" and srt: "sorted (l # map fst cs)"
    by simp_all
  from srt have end_ge: "l \<le> ?end"
    by (cases cs rule: rev_cases) auto
  from Cons.prems(3) a have nt: "newline \<notin> set t" and ncs: "\<forall>(l, t)\<in>set cs. newline \<notin> set t"
    by simp_all
  have last_eq: "(if a # cs = [] then prev else fst (last (a # cs))) = ?end"
    by (simp add: a)
  show ?case
  proof (cases "l = prev")
    case True
    have np: "newline \<notin> set (p @ '' '' @ t)"
      using Cons.prems(2) nt by simp
    define r where "r = text_lines ((p @ '' '' @ t) @ render prev cs)"
    define e where "e = (if cs = [] then prev else fst (last cs))"
    have eq: "text_lines (p @ render prev (a # cs)) = r"
      by (simp add: a True r_def)
    have e: "?end = e"
      by (simp add: True e_def)
    have lt: "line_text (a # cs) n = (if n = prev then '' '' @ t else []) @ line_text cs n" for n
      by (simp add: line_text_def a True)
    from srt True have "sorted (prev # map fst cs)"
      by simp
    from Cons.IH [OF this np ncs]
    have ih: "length r = nat (e - prev) + 1
      \<and> (\<forall>k. int k \<le> e - prev \<longrightarrow>
            r ! k = (if k = 0 then p @ '' '' @ t else []) @ line_text cs (prev + int k))"
      unfolding r_def e_def .
    then show ?thesis
      unfolding last_eq eq e by (auto simp: lt)
  next
    case False
    with le have lt: "prev < l"
      by simp
    define n where "n = nat (l - prev)"
    with lt have n: "0 < n" "int n = l - prev"
      by simp_all
    define q where "q = '' '' @ t @ render l cs"
    have ih: "length (text_lines q) = nat (?end - l) + 1
      \<and> (\<forall>k. int k \<le> ?end - l \<longrightarrow>
          text_lines q ! k = (if k = 0 then '' '' @ t else []) @ line_text cs (l + int k))"
      using Cons.IH [OF srt _ ncs, of "'' '' @ t"] nt by (simp add: q_def)
    have tl: "text_lines (p @ render prev (a # cs)) = p # replicate (n - 1) [] @ text_lines q"
    proof -
      have "p @ render prev (a # cs) = p @ (replicate n newline @ q)"
        by (simp add: a n_def q_def)
      also have "text_lines \<dots> = (p @ hd (text_lines (replicate n newline @ q)))
          # tl (text_lines (replicate n newline @ q))"
        by (rule text_lines_append [OF Cons.prems(2)])
      also have "\<dots> = p # replicate (n - 1) [] @ text_lines q"
        using n(1) by (cases n) (simp_all add: text_lines_newlines)
      finally show ?thesis .
    qed
    have later: "\<forall>(l', t')\<in>set cs. l \<le> l'"
      using srt by auto
    have lt_a: "line_text (a # cs) m = (if m = l then '' '' @ t else []) @ line_text cs m" for m
      by (simp add: line_text_def a)
    have early: "line_text cs m = []" if "m < l" for m
      using later that by (intro line_text_later) auto
    have len: "length (text_lines (p @ render prev (a # cs))) = nat (?end - prev) + 1"
      using ih n end_ge lt by (simp add: tl)
    have nth: "text_lines (p @ render prev (a # cs)) ! k
        = (if k = 0 then p else []) @ line_text (a # cs) (prev + int k)"
      if k: "int k \<le> ?end - prev" for k
    proof -
      consider "k = 0" | "0 < k" "k < n" | "n \<le> k"
        by linarith
      then show ?thesis
      proof cases
        case 1
        with lt show ?thesis
          by (simp add: tl lt_a early)
      next
        case 2
        with n have "prev + int k < l"
          by simp
        moreover from 2 have "k - 1 < n - 1"
          by simp
        ultimately show ?thesis
          using 2 by (simp add: tl lt_a early nth_append nth_Cons')
      next
        case 3
        define j where "j = k - n"
        with 3 have kj: "k = n + j"
          by simp
        with k n have j: "int j \<le> ?end - l"
          by simp
        have "\<not> n + j - 1 < n - 1" and "n + j - 1 - (n - 1) = j"
          using n(1) by simp_all
        then have "text_lines (p @ render prev (a # cs)) ! k = text_lines q ! j"
          using n(1) by (simp add: tl kj nth_append nth_Cons')
        also have "\<dots> = (if j = 0 then '' '' @ t else []) @ line_text cs (l + int j)"
          using ih j by simp
        also have "\<dots> = (if k = 0 then p else []) @ line_text (a # cs) (prev + int k)"
          using n by (simp add: kj lt_a)
        finally show ?thesis .
      qed
    qed
    from len nth show ?thesis
      unfolding last_eq by simp
  qed
qed

text \<open>
  Claim C10, as the code has it. For a run of \<open>add\<close> calls on a cleared chunk with
  nondecreasing line numbers, none of them - 1 (the value that marks \<open>first\<close> and
  \<open>last\<close> as unset), and texts without line feeds: \<open>first\<close> is the line of the first
  call after every call of the run; the source text is the first text after one blank,
  followed for each later call by as many line feeds as its line lies beyond the line of
  the call before, one blank and its text; and physical line \<open>k\<close> (counted from 1) of
  the source text holds what the calls wrote for line \<open>first + k - 1\<close>, each of their
  texts after one blank, and nothing when no call named that line.
\<close>

theorem add_keeps_lines_aligned:
  assumes "sorted (map fst ((l0, t0) # rest))"
    and "\<forall>(l, t)\<in>set ((l0, t0) # rest). l \<noteq> - 1 \<and> newline \<notin> set t"
  shows "(\<forall>n. 0 < n \<longrightarrow> first (add_all (clear c) (take n ((l0, t0) # rest))) = l0)
    \<and> chunk (add_all (clear c) ((l0, t0) # rest)) = '' '' @ t0 @ render l0 rest
    \<and> length (text_lines (chunk (add_all (clear c) ((l0, t0) # rest))))
        = nat (fst (last ((l0, t0) # rest)) - l0) + 1
    \<and> (\<forall>k. 1 \<le> k \<and> int k \<le> fst (last ((l0, t0) # rest)) - l0 + 1 \<longrightarrow>
          text_lines (chunk (add_all (clear c) ((l0, t0) # rest))) ! (k - 1)
            = line_text ((l0, t0) # rest) (l0 + int k - 1))"
proof -
  let ?calls = "(l0, t0) # rest"
  from assms(2) have ok: "\<forall>(l, t)\<in>set ?calls. l \<noteq> - 1"
    and nl: "\<forall>(l, t)\<in>set ?calls. newline \<notin> set t"
    by auto
  have fst_fixed: "first (add_all (clear c) (take n ?calls)) = l0" if "0 < n" for n
  proof -
    from that obtain m where n: "n = Suc m"
      by (cases n) auto
    have "\<forall>(l, t)\<in>set ((l0, t0) # take m rest). l \<noteq> - 1"
      using ok by (auto dest: in_set_takeD)
    from add_all_clear [OF this, of c] show ?thesis
      by (simp add: n)
  qed
  have ch: "chunk (add_all (clear c) ?calls) = render l0 ?calls"
    using add_all_clear [OF ok, of c] by simp
  have "sorted (l0 # map fst ?calls)"
    using assms(1) by simp
  from text_lines_render [OF this _ nl, of "[]"]
  have len: "length (text_lines (render l0 ?calls)) = nat (fst (last ?calls) - l0) + 1"
    and nth: "\<And>k. int k \<le> fst (last ?calls) - l0 \<Longrightarrow>
      text_lines (render l0 ?calls) ! k = line_text ?calls (l0 + int k)"
    by simp_all
  have nth1: "text_lines (render l0 ?calls) ! (k - 1) = line_text ?calls (l0 + int k - 1)"
    if "1 \<le> k" "int k \<le> fst (last ?calls) - l0 + 1" for k
  proof -
    from that have "int (k - 1) \<le> fst (last ?calls) - l0" and "int (k - 1) = int k - 1"
      by simp_all
    with nth [of "k - 1"] show ?thesis
      by (simp add: algebra_simps)
  qed
  from fst_fixed ch len nth1 show ?thesis
    by simp
qed

text \<open>
  The claim's words fail on a run whose first call names line - 1: \<open>first\<close> then
  follows the second call and no line feed separates the two texts. And what a physical
  line holds is not the authored text alone: each text comes after a blank, and the texts
  of calls that name the same line share the physical line.
\<close>

theorem add_keeps_lines_aligned_counterexample:
  "first (add_all (clear (new_chunk ''chunk1'')) [(- 1, ''a''), (2, ''b'')]) = 2
   \<and> chunk (add_all (clear (new_chunk ''chunk1'')) [(- 1, ''a''), (2, ''b'')]) = '' a b''
   \<and> text_lines (chunk (add_all (clear (new_chunk ''chunk1'')) [(5, ''a''), (5, ''b''), (7, ''c'')]))
       = ['' a b'', [], '' c'']"
  by code_simp

theorem add_keeps_lines_aligned_witness:
  "first (add_all (clear (new_chunk ''chunk1'')) [(5, ''a'')]) = 5
   \<and> first (add_all (clear (new_chunk ''chunk1'')) [(5, ''a''), (5, ''b''), (7, ''c'')]) = 5
   \<and> chunk (add_all (clear (new_chunk ''chunk1'')) [(5, ''a''), (5, ''b''), (7, ''c'')])
       = '' a b'' @ [newline, newline] @ '' c''
   \<and> length (text_lines (chunk (add_all (clear (new_chunk ''chunk1''))
        [(5, ''a''), (5, ''b''), (7, ''c'')]))) = 3
   \<and> text_lines (chunk (add_all (clear (new_chunk ''chunk1''))
        [(5, ''a''), (5, ''b''), (7, ''c'')])) ! 0 = '' a b''
   \<and> text_lines (chunk (add_all (clear (new_chunk ''chunk1''))
        [(5, ''a''), (5, ''b''), (7, ''c'')])) ! 1 = []
   \<and> text_lines (chunk (add_all (clear (new_chunk ''chunk1''))
        [(5, ''a''), (5, ''b''), (7, ''c'')])) ! 2 = '' c''"
proof -
  let ?calls = "[(5 :: int, ''a''), (5, ''b''), (7, ''c'')]"
  let ?c = "add_all (clear (new_chunk ''chunk1'')) ?calls"
  have h1: "sorted (map fst ?calls)"
    by simp
  have h2: "\<forall>(l, t)\<in>set ?calls. l \<noteq> - 1 \<and> newline \<notin> set t"
    by simp
  note t = add_keeps_lines_aligned [OF h1 h2, of "new_chunk ''chunk1''"]
  from t [THEN conjunct1]
  have f: "\<And>n. 0 < n \<Longrightarrow> first (add_all (clear (new_chunk ''chunk1'')) (take n ?calls)) = 5"
    by blast
  from t [THEN conjunct2, THEN conjunct1]
  have ch: "chunk ?c = '' a b'' @ [newline, newline] @ '' c''"
    by (simp add: numeral_2_eq_2)
  from t [THEN conjunct2, THEN conjunct2, THEN conjunct1]
  have len: "length (text_lines (chunk ?c)) = 3"
    by simp
  from t [THEN conjunct2, THEN conjunct2, THEN conjunct2]
  have nth: "\<And>k. 1 \<le> k \<Longrightarrow> int k \<le> 3 \<Longrightarrow>
      text_lines (chunk ?c) ! (k - 1) = line_text ?calls (5 + int k - 1)"
    by simp
  from f [of 1] f [of 3] ch len nth [of 1] nth [of 2] nth [of 3] show ?thesis
    by (simp add: line_text_def)
qed

section \<open>Line numbers in rewritten error messages\<close>

lemma find_at_char:
  "x \<notin> set num \<Longrightarrow> find_at [x] (num @ x # post) i = Some (i + length num)"
  by (induction num arbitrary: i) auto

lemma of_char_digit: "k < 10 \<Longrightarrow> (of_char (char_of (48 + k :: nat)) :: nat) = 48 + k"
  by (simp add: of_char_of)

lemma digits_of_digits: "list_all isdigit (digits_of n)"
proof (induction n rule: digits_of.induct)
  case (1 n)
  show ?case
  proof (cases "n < 10")
    case True
    then show ?thesis
      by (simp add: digits_of.simps [of n] isdigit_def of_char_digit)
  next
    case False
    have "n mod 10 < 10"
      by simp
    then have "isdigit (char_of (48 + n mod 10))"
      unfolding isdigit_def by (simp only: of_char_digit) simp
    with False "1.IH" show ?thesis
      by (simp add: digits_of.simps [of n])
  qed
qed

lemma digits_of_nonempty: "digits_of n \<noteq> []"
  by (subst digits_of.simps) simp

lemma atoi_digits_append:
  "list_all isdigit xs \<Longrightarrow> atoi_digits acc (xs @ ys) = atoi_digits (atoi_digits acc xs) ys"
  by (induction xs arbitrary: acc) simp_all

lemma atoi_digits_of: "atoi_digits 0 (digits_of n) = int n"
proof (induction n rule: digits_of.induct)
  case (1 n)
  show ?case
  proof (cases "n < 10")
    case True
    then show ?thesis
      by (simp add: digits_of.simps [of n] isdigit_def of_char_digit)
  next
    case False
    have m: "n mod 10 < 10"
      by simp
    have d: "isdigit (char_of (48 + n mod 10))"
      unfolding isdigit_def by (simp only: of_char_digit [OF m]) simp
    have "atoi_digits 0 (digits_of n)
        = atoi_digits (atoi_digits 0 (digits_of (n div 10))) [char_of (48 + n mod 10)]"
      using False by (simp add: digits_of.simps [of n] atoi_digits_append digits_of_digits)
    also have "\<dots> = int (n div 10) * 10 + int (n mod 10)"
      using False "1.IH" d by (simp add: of_char_digit [OF m])
    also have "\<dots> = int n"
      by presburger
    finally show ?thesis .
  qed
qed

lemma isdigit_chars:
  assumes "isdigit ch"
  shows "ch \<noteq> CHR '':''" "ch \<noteq> CHR 0x00" "ch \<noteq> CHR ''-''" "ch \<noteq> CHR ''+''" "\<not> isspace ch"
  using assms by (auto simp: isdigit_def isspace_def)

lemma digits_of_chars:
  "CHR '':'' \<notin> set (digits_of n)" "CHR 0x00 \<notin> set (digits_of n)"
  using digits_of_digits [of n] isdigit_chars(1,2) by (auto simp: list_all_iff)

lemma make_stringf_d_chars:
  "CHR '':'' \<notin> set (make_stringf_d n)" "CHR 0x00 \<notin> set (make_stringf_d n)"
  by (simp_all add: make_stringf_d_def digits_of_chars)

lemma c_str_id: "CHR 0x00 \<notin> set s \<Longrightarrow> c_str s = s"
  by (auto simp: c_str_def takeWhile_eq_all_conv)

lemma atoi_unsigned: "atoi (digits_of n) = int n"
proof -
  obtain d ds where ds: "digits_of n = d # ds"
    using digits_of_nonempty [of n] by (cases "digits_of n") auto
  with digits_of_digits [of n] have "isdigit d"
    by simp
  from isdigit_chars(3-5) [OF this] ds atoi_digits_of [of n] show ?thesis
    by (simp add: atoi_def)
qed

lemma atoi_make_stringf_d: "atoi (make_stringf_d n) = n"
proof (cases "n < 0")
  case True
  then show ?thesis
    by (simp add: make_stringf_d_def atoi_def isspace_def atoi_digits_of)
next
  case False
  then show ?thesis
    by (simp add: make_stringf_d_def atoi_unsigned)
qed

text \<open>
  Claim C2. Take a chunk with context tag \<open>c\<close> and line offset \<open>first\<close>, and an error
  line in which the marker \<^verbatim>\<open>[string "c"]:\<close> is followed by the decimal numeral of
  an integer \<open>n\<close> and a colon, this being the first place where the marker occurs in
  the line. Rewriting the line replaces the numeral by that of \<open>n + first - 1\<close> and the
  reference \<^verbatim>\<open>[string "c"]\<close> by the file name of the chunk, or by the context tag
  when the file name is empty; the text before and after stays. \<open>n\<close>, the sum
  \<open>n + first\<close> and the new line number are values of the C type \<^verbatim>\<open>int\<close>, outside of
  which the arithmetic of the code is undefined.
\<close>

theorem rewrite_chunk_prefix_remaps:
  assumes "str_find (pre @ contextm c @ make_stringf_d n @ '':'' @ post) (contextm c) 0
      = Some (length pre)"
    and "fits_int n" and "fits_int (n + first c)" and "fits_int (n + first c - 1)"
  shows "rewrite_chunk_prefix c (pre @ contextm c @ make_stringf_d n @ '':'' @ post)
    = pre @ (if file_name c = [] then context_tag c else file_name c) @ '':''
        @ make_stringf_d (n + first c - 1) @ '':'' @ post"
proof -
  let ?cm = "contextm c" and ?num = "make_stringf_d n"
  let ?line = "pre @ ?cm @ ?num @ '':'' @ post"
  let ?lns = "length pre + length ?cm"
  have dr: "drop ?lns ?line = ?num @ CHR '':'' # post"
    by simp
  have pe: "str_find ?line '':'' ?lns = Some (?lns + length ?num)"
    unfolding str_find_def dr using find_at_char [OF make_stringf_d_chars(1), of n post ?lns]
    by simp
  have num: "substr ?line ?lns (?lns + length ?num - ?lns) = ?num"
    by (simp add: substr_def)
  have val: "atoi (c_str ?num) = n"
    by (simp add: c_str_id make_stringf_d_chars atoi_make_stringf_d)
  have s: "substr ?line 0 ?lns @ make_stringf_d (n + first c - 1)
      @ substr_from ?line (?lns + length ?num)
    = pre @ ?cm @ make_stringf_d (n + first c - 1) @ '':'' @ post"
    by (simp add: substr_def substr_from_def)
  show ?thesis
    unfolding rewrite_chunk_prefix_def assms(1) option.case Let_def pe num val s
    by (simp add: substr_def substr_from_def)
qed

lemma digits_of_small: "n < 10 \<Longrightarrow> digits_of n = [char_of (48 + n)]"
  by (simp add: digits_of.simps [of n])

lemma digit_chars:
  "char_of (49 :: nat) = CHR ''1''" "char_of (50 :: nat) = CHR ''2''"
  "char_of (51 :: nat) = CHR ''3''" "char_of (54 :: nat) = CHR ''6''"
  "char_of (55 :: nat) = CHR ''7''" "char_of (56 :: nat) = CHR ''8''"
  by code_simp+

theorem rewrite_chunk_prefix_remaps_witness:
  "rewrite_chunk_prefix compiled_chunk
     (''[string '' @ [CHR 0x22] @ ''chunk1'' @ [CHR 0x22] @ '']:3: bad value'')
     = ''vault.des:7: bad value''
   \<and> rewrite_chunk_prefix (new_chunk ''chunk1'')
     (''at [string '' @ [CHR 0x22] @ ''chunk1'' @ [CHR 0x22] @ '']:3: bad value'')
     = ''at chunk1:1: bad value''"
proof -
  have n3: "make_stringf_d 3 = ''3''" and n7: "make_stringf_d 7 = ''7''"
    and n1: "make_stringf_d 1 = ''1''"
    by (simp_all add: make_stringf_d_def digits_of_small digit_chars)
  have h1: "str_find ([] @ contextm compiled_chunk @ make_stringf_d 3 @ '':'' @ '' bad value'')
      (contextm compiled_chunk) 0 = Some (length ([] :: string))"
    by (simp add: n3 str_find_def contextm_def compiled_chunk_eq)
  have h2: "fits_int 3" and h3: "fits_int (3 + first compiled_chunk)"
    and h4: "fits_int (3 + first compiled_chunk - 1)"
    by (simp_all add: fits_int_def INT_MIN_def INT_MAX_def compiled_chunk_eq)
  have g1: "str_find (''at '' @ contextm (new_chunk ''chunk1'') @ make_stringf_d 3 @ '':''
      @ '' bad value'') (contextm (new_chunk ''chunk1'')) 0 = Some (length ''at '')"
    by (simp add: n3 str_find_def contextm_def new_chunk_def clear_def)
  have g3: "fits_int (3 + first (new_chunk ''chunk1''))"
    and g4: "fits_int (3 + first (new_chunk ''chunk1'') - 1)"
    by (simp_all add: fits_int_def INT_MIN_def INT_MAX_def new_chunk_def clear_def)
  from rewrite_chunk_prefix_remaps [OF h1 h2 h3 h4] rewrite_chunk_prefix_remaps [OF g1 h2 g3 g4]
  show ?thesis
    by (simp add: n3 n7 n1 contextm_def compiled_chunk_eq new_chunk_def clear_def)
qed

section \<open>Rewriting a multi-line message\<close>

lemma rewrite_lines_eq:
  assumes "0 \<le> i" and "sz \<le> int (length lines)"
  shows "rewrite_lines c lines i sz msg wrote =
    (let ms = filter (mentions_context c) (take (nat (sz - i)) (drop (nat i) lines)) in
     if wrote then msg @ concat (map (\<lambda>st. newline # rewrite_chunk_prefix c st) ms)
     else merged_message c msg ms)"
  using assms
proof (induction c lines i sz msg wrote rule: rewrite_lines.induct)
  case (1 c lines i sz newmsg wrote_prefix)
  show ?case
  proof (cases "i < sz")
    case False
    then show ?thesis
      by (simp add: rewrite_lines.simps [of c lines i sz] merged_message_def)
  next
    case True
    with "1.prems" have in_range: "nat i < length lines"
      by simp
    have n1: "nat (sz - i) = Suc (nat (sz - (i + 1)))" and n2: "nat (i + 1) = Suc (nat i)"
      using True "1.prems" by simp_all
    have win: "take (nat (sz - i)) (drop (nat i) lines)
        = lines ! nat i # take (nat (sz - (i + 1))) (drop (nat (i + 1)) lines)"
      unfolding n1 n2 using Cons_nth_drop_Suc [OF in_range, symmetric] by simp
    have next_ok: "0 \<le> i + 1"
      using "1.prems" by simp
    show ?thesis
    proof (cases "str_find (lines ! nat i) (context_tag c) 0 \<noteq> None")
      case False
      with True "1.IH"(3) [OF True refl False next_ok "1.prems"(2)] show ?thesis
        by (simp add: rewrite_lines.simps [of c lines i sz] win mentions_context_def Let_def)
    next
      case hit: True
      show ?thesis
      proof (cases wrote_prefix)
        case False
        with True hit "1.IH"(1) [OF True refl hit _ next_ok "1.prems"(2)] show ?thesis
          by (simp add: rewrite_lines.simps [of c lines i sz] win mentions_context_def Let_def
              merged_message_def)
      next
        case wp: True
        with True hit "1.IH"(2) [OF True refl hit _ next_ok "1.prems"(2)] show ?thesis
          by (simp add: rewrite_lines.simps [of c lines i sz] win mentions_context_def Let_def)
      qed
    qed
  qed
qed

lemma split_string_nonempty: "split_string sep s \<noteq> []"
  by (subst split_string.simps) (simp split: option.splits)

text \<open>
  Claim C3, as the code has it. When the marker of the chunk occurs in a message, and not
  at its start, the message is cut into lines and the loop visits the lines with indices
  2 to size - 2: not the first two lines and not the last one. Of the visited lines that
  mention the context tag, the first gives the prefix (its rewritten text up to the
  second colon), which is put with a colon and a blank before the first line of the
  message; each later one is rewritten and appended after a line feed. Lines outside the
  window are dropped, whether they mention the context tag or not.
\<close>

theorem rewrite_chunk_errors_window:
  assumes "str_find s (contextm c) 0 = Some p" and "p \<noteq> 0"
  shows "rewrite_chunk_errors c s =
    Some (True, merged_message c (hd (split_string [newline] s))
                  (matching_window c (split_string [newline] s)))"
proof -
  obtain l0 ls where sp: "split_string [newline] s = l0 # ls"
    using split_string_nonempty [of "[newline]" s] by (cases "split_string [newline] s") auto
  have "nat (int (length ls) - 2) = length ls - 2"
    by simp
  then have "rewrite_lines c (l0 # ls) 2 (int (length (l0 # ls)) - 1) l0 False
      = merged_message c l0 (matching_window c (l0 # ls))"
    by (subst rewrite_lines_eq) (simp_all add: matching_window_def drop_Cons')
  with assms sp show ?thesis
    by (simp add: rewrite_chunk_errors_def)
qed

text \<open>
  A traceback with one frame: the frame is the last line, the loop does not visit it, and
  the message comes back as its first line alone. Had every line that mentions the tag
  been used, the frame would have given the prefix.
\<close>

theorem rewrite_chunk_errors_window_counterexample:
  "mentions_context source_chunk (last (split_string [newline] one_frame_message))
   \<and> rewrite_chunk_errors source_chunk one_frame_message = Some (True, ''boom'')
   \<and> merged_message source_chunk (hd (split_string [newline] one_frame_message))
       (filter (mentions_context source_chunk) (split_string [newline] one_frame_message))
       = [CHR 0x09] @ ''vault.des:6: boom''"
  by code_simp

theorem rewrite_chunk_errors_window_witness:
  "rewrite_chunk_errors source_chunk traceback_message
     = Some (True, ''vault.des:6: boom'' @ [newline] @ ''vault.des:8: in g'')"
proof -
  have h: "str_find traceback_message (contextm source_chunk) 0 = Some 22"
    by code_simp
  have e: "merged_message source_chunk (hd (split_string [newline] traceback_message))
      (matching_window source_chunk (split_string [newline] traceback_message))
      = ''vault.des:6: boom'' @ [newline] @ ''vault.des:8: in g''"
    by code_simp
  from rewrite_chunk_errors_window [OF h] e show ?thesis
    by simp
qed

section \<open>Depth fragments\<close>

text \<open>
  Whatever the arguments, \<^verbatim>\<open>dgn_add_depths\<close> leaves the depth list of the map as it
  was: its pushes go to \<^verbatim>\<open>dgn_default_depths\<close>.
\<close>

lemma dgn_add_depths_map_depths:
  "dgn_add_depths parse drs w ls i e = Inr w' \<Longrightarrow> map_depths w' = map_depths w"
proof (induction parse drs w ls i e rule: dgn_add_depths.induct)
  case (1 parse drs w ls i e)
  show ?case
  proof (cases "i \<le> e")
    case False
    with "1.prems" show ?thesis
      by (simp add: dgn_add_depths.simps [of parse drs w ls i e])
  next
    case True
    with "1.prems" obtain depth i' dd where d: "luaL_checkstring ls i = Some depth"
      and fr: "add_depths_frags parse (split_string '','' depth) 0
          (length (split_string '','' depth)) i (dgn_default_depths w) = Inr (i', dd)"
      and rest: "dgn_add_depths parse drs (w\<lparr>dgn_default_depths := dd\<rparr>) ls (i' + 1) e = Inr w'"
      by (auto simp: dgn_add_depths.simps [of parse drs w ls i e] Let_def
          split: option.splits sum.splits)
    from "1.IH" [OF True d refl fr refl rest] show ?thesis
      by simp
  qed
qed

text \<open>
  Claim C6 says that every argument position is processed once and that every
  comma-separated fragment is parsed and appended to the list passed as \<^verbatim>\<open>drs\<close>.
  The code does not do that. Its inner loop tests and advances the outer index and reads
  fragment 0 each time, and it pushes to \<^verbatim>\<open>dgn_default_depths\<close>. With the depth
  text \<^verbatim>\<open>1,2\<close> as the one argument: through \<^verbatim>\<open>dgn.depth\<close> (argument position 2)
  nothing is parsed and the map gets no depth; through \<^verbatim>\<open>dgn.default_depth\<close>
  (position 1) only the first fragment is parsed. With three arguments the first
  fragment of the first argument is pushed three times and the arguments at positions
  2 and 3 are never read. The sibling \<^verbatim>\<open>dgn_set_default_depth\<close> parses both
  fragments of the same text.
\<close>

theorem dgn_add_depths_loses_fragments:
  "dgn_depth depth_of_text describe empty_world [LuaMapHandle, LuaString ''1,2'']
     = Inr (empty_world, None)
   \<and> dgn_default_depth depth_of_text describe empty_world [LuaString ''1,2'']
     = Inr (empty_world\<lparr>dgn_default_depths :=
              [\<lparr>branch = 0, shallowest = 1, deepest = 1, deny = False\<rparr>]\<rparr>, None)
   \<and> dgn_default_depth depth_of_text describe empty_world
       [LuaString ''1,2,3,4'', LuaString ''7'', LuaString ''8'']
     = Inr (empty_world\<lparr>dgn_default_depths :=
              [\<lparr>branch = 0, shallowest = 1, deepest = 1, deny = False\<rparr>,
               \<lparr>branch = 0, shallowest = 1, deepest = 1, deny = False\<rparr>,
               \<lparr>branch = 0, shallowest = 1, deepest = 1, deny = False\<rparr>]\<rparr>, None)
   \<and> dgn_set_default_depth depth_of_text empty_world ''1,2''
     = ([], empty_world\<lparr>dgn_default_depths :=
              [\<lparr>branch = 0, shallowest = 1, deepest = 1, deny = False\<rparr>,
               \<lparr>branch = 0, shallowest = 2, deepest = 2, deny = False\<rparr>]\<rparr>)"
  by code_simp

section \<open>The flood fill finds what is reachable\<close>

lemma fresh_cells_set:
  "set (fresh_cells trav wd ht diag visited c)
     = {d \<in> set (adjacent diag c). in_rect wd ht d \<and> trav d \<and> d \<notin> set visited}"
  by (auto simp: fresh_cells_def)

lemma flood_inv_step:
  assumes "flood_inv trav wd ht diag start visited (c # rest)"
  shows "flood_inv trav wd ht diag start (visited @ fresh_cells trav wd ht diag visited c)
           (rest @ fresh_cells trav wd ht diag visited c)"
proof -
  let ?fresh = "fresh_cells trav wd ht diag visited c"
  from assms have sub: "set (c # rest) \<subseteq> set visited" and st: "start \<in> set visited"
    and rv: "\<forall>v\<in>set visited. reach trav wd ht diag start v"
    and cl: "\<forall>v\<in>set visited - set (c # rest). \<forall>d\<in>set (adjacent diag v).
               in_rect wd ht d \<and> trav d \<longrightarrow> d \<in> set visited"
    by (simp_all add: flood_inv_def)
  from sub rv have rc: "reach trav wd ht diag start c"
    by simp
  have r': "\<forall>v\<in>set (visited @ ?fresh). reach trav wd ht diag start v"
  proof
    fix v assume "v \<in> set (visited @ ?fresh)"
    then consider "v \<in> set visited" | "v \<in> set ?fresh"
      by auto
    then show "reach trav wd ht diag start v"
    proof cases
      case 1
      with rv show ?thesis
        by simp
    next
      case 2
      then have "v \<in> set (adjacent diag c)" "in_rect wd ht v" "trav v"
        by (simp_all add: fresh_cells_set)
      with rc show ?thesis
        by (rule reach_step)
    qed
  qed
  have cl': "\<forall>v\<in>set (visited @ ?fresh) - set (rest @ ?fresh). \<forall>d\<in>set (adjacent diag v).
               in_rect wd ht d \<and> trav d \<longrightarrow> d \<in> set (visited @ ?fresh)"
  proof (intro ballI impI)
    fix v d
    assume v: "v \<in> set (visited @ ?fresh) - set (rest @ ?fresh)"
      and d: "d \<in> set (adjacent diag v)" and ok: "in_rect wd ht d \<and> trav d"
    from v have vv: "v \<in> set visited" and vr: "v \<notin> set rest"
      unfolding set_append by blast+
    show "d \<in> set (visited @ ?fresh)"
    proof (cases "v = c")
      case True
      with d ok show ?thesis
        by (cases "d \<in> set visited") (simp_all add: fresh_cells_set)
    next
      case False
      with vv vr have "v \<in> set visited - set (c # rest)"
        by simp
      with cl d ok have "d \<in> set visited"
        by blast
      then show ?thesis
        by simp
    qed
  qed
  from sub have q': "set (rest @ ?fresh) \<subseteq> set (visited @ ?fresh)"
    by auto
  from st have st': "start \<in> set (visited @ ?fresh)"
    by simp
  show ?thesis
    unfolding flood_inv_def using q' st' r' cl' by (intro conjI)
qed

lemma closed_contains_reach:
  assumes "flood_inv trav wd ht diag start visited []"
    and "reach trav wd ht diag start v"
  shows "v \<in> set visited"
  using assms(2)
proof (induction rule: reach.induct)
  case reach_start
  from assms(1) show ?case
    by (simp add: flood_inv_def)
next
  case (reach_step c d)
  from assms(1) have "\<forall>v\<in>set visited. \<forall>d\<in>set (adjacent diag v).
      in_rect wd ht d \<and> trav d \<longrightarrow> d \<in> set visited"
    by (simp add: flood_inv_def)
  with reach_step show ?case
    by blast
qed

lemma flood_correct:
  assumes "flood_inv trav wd ht diag start visited queue"
  shows "flood trav wd ht diag seeds visited queue
    = (\<forall>s\<in>set seeds. reach trav wd ht diag start s)"
  using assms
proof (induction trav wd ht diag seeds visited queue rule: flood.induct)
  case (1 trav wd ht diag seeds visited queue)
  show ?case
  proof (cases "list_all (\<lambda>s. s \<in> set visited) seeds")
    case True
    with "1.prems" have "\<forall>s\<in>set seeds. reach trav wd ht diag start s"
      by (auto simp: flood_inv_def list_all_iff)
    moreover from True have "flood trav wd ht diag seeds visited queue"
      by (simp add: flood.simps [of trav wd ht diag seeds visited queue])
    ultimately show ?thesis
      by simp
  next
    case False
    show ?thesis
    proof (cases queue)
      case Nil
      from False obtain s where s: "s \<in> set seeds" "s \<notin> set visited"
        by (auto simp: list_all_iff)
      from "1.prems" Nil have inv0: "flood_inv trav wd ht diag start visited []"
        by simp
      have "\<not> reach trav wd ht diag start s"
      proof
        assume "reach trav wd ht diag start s"
        from closed_contains_reach [OF inv0 this] s(2) show False
          by simp
      qed
      with s(1) have "\<not> (\<forall>s\<in>set seeds. reach trav wd ht diag start s)"
        by blast
      moreover from False have "\<not> flood trav wd ht diag seeds visited []"
        by (simp add: flood.simps [of trav wd ht diag seeds visited "[]"])
      ultimately show ?thesis
        using Nil by simp
    next
      case (Cons c rest)
      with "1.prems" have "flood_inv trav wd ht diag start
          (visited @ fresh_cells trav wd ht diag visited c)
          (rest @ fresh_cells trav wd ht diag visited c)"
        by (simp add: flood_inv_step)
      from "1.IH" [OF False Cons this]
      have "flood trav wd ht diag seeds (visited @ fresh_cells trav wd ht diag visited c)
          (rest @ fresh_cells trav wd ht diag visited c)
        = (\<forall>s\<in>set seeds. reach trav wd ht diag start s)" .
      moreover from False
      have "flood trav wd ht diag seeds visited (c # rest)
        = flood trav wd ht diag seeds (visited @ fresh_cells trav wd ht diag visited c)
          (rest @ fresh_cells trav wd ht diag visited c)"
        by (simp add: flood.simps [of trav wd ht diag seeds visited "c # rest"])
      ultimately show ?thesis
        using Cons by simp
    qed
  qed
qed

lemma points_connected_from_iff:
  "points_connected_from trav wd ht diag seeds start
     = (\<forall>s\<in>set seeds. reach trav wd ht diag start s)"
  unfolding points_connected_from_def
  by (rule flood_correct) (auto simp: flood_inv_def intro: reach_start)

lemma length_point_args: "length (point_args ps) = 2 * length ps"
  by (induction ps) (auto simp: point_args_def)

lemma point_args_nth:
  "j < length ps \<Longrightarrow> point_args ps ! (2 * j) = LuaNumber (fst (ps ! j))
     \<and> point_args ps ! (2 * j + 1) = LuaNumber (snd (ps ! j))"
proof (induction ps arbitrary: j)
  case Nil
  then show ?case
    by simp
next
  case (Cons p ps)
  obtain a b where p: "p = (a, b)"
    by (cases p) auto
  have step: "point_args (p # ps) = LuaNumber a # LuaNumber b # point_args ps"
    by (simp add: point_args_def p)
  show ?case
  proof (cases j)
    case 0
    then show ?thesis
      unfolding step by (simp add: p)
  next
    case (Suc i)
    with Cons.prems have "i < length ps"
      by simp
    from Cons.IH [OF this] Suc show ?thesis
      unfolding step by simp
  qed
qed

lemma seed_points_args:
  assumes "j \<le> length ps"
  shows "seed_points (m # LuaNumber x # LuaNumber y # point_args ps) (4 + 2 * j)
           (3 + 2 * length ps) acc = Inr (acc @ drop j ps)"
  using assms
proof (induction "length ps - j" arbitrary: j acc)
  case 0
  then have "j = length ps"
    by simp
  then show ?case
    by (simp add: seed_points.simps [of _ "4 + 2 * length ps"])
next
  case (Suc n)
  then have j: "j < length ps"
    by simp
  let ?ls = "m # LuaNumber x # LuaNumber y # point_args ps"
  from j have in1: "4 + 2 * j \<le> length ?ls" and in2: "4 + 2 * j + 1 \<le> length ?ls"
    by (simp_all add: length_point_args)
  have v1: "luaL_checkint ?ls (4 + 2 * j) = Some (fst (ps ! j))"
    using in1 point_args_nth [OF j]
    by (simp add: luaL_checkint_def lua_index_def length_point_args numeral_3_eq_3)
  have "?ls ! (4 + 2 * j) = point_args ps ! (2 * j + 1)"
    by (simp add: numeral_3_eq_3 eval_nat_numeral)
  then have v2: "luaL_checkint ?ls (4 + 2 * j + 1) = Some (snd (ps ! j))"
    using in2 point_args_nth [OF j]
    by (simp add: luaL_checkint_def lua_index_def length_point_args)
  have nxt: "4 + 2 * j + 2 = 4 + 2 * Suc j"
    by simp
  from Suc(2) have n: "n = length ps - Suc j"
    by simp
  from j have le: "Suc j \<le> length ps"
    by simp
  have dr: "drop j ps = ps ! j # drop (Suc j) ps"
    using j by (simp add: Cons_nth_drop_Suc)
  have "4 + 2 * j < 3 + 2 * length ps"
    using j by simp
  then show ?case
    using v1 v2 Suc(1) [OF n le, of "acc @ [(fst (ps ! j), snd (ps ! j))]"]
    by (simp add: seed_points.simps [of ?ls "4 + 2 * j"] nxt dr)
qed

lemma dgn_points_connected_args:
  assumes "ps \<noteq> []"
  shows "dgn_points_connected traversable diag w
           (LuaMapHandle # LuaNumber x # LuaNumber y # point_args ps)
    = Inr (\<forall>s\<in>set ps. reach (traversable w) (map_width w) (map_height w) diag (x, y) s)"
proof -
  let ?ls = "LuaMapHandle # LuaNumber x # LuaNumber y # point_args ps"
  from assms have "0 < length ps"
    by simp
  then have len: "length ?ls = 3 + 2 * length ps" and big: "\<not> 3 + 2 * length ps < 5"
    by (simp_all add: length_point_args)
  have sp: "seed_points ?ls 4 (3 + 2 * length ps) [] = Inr ps"
    using seed_points_args [of 0 ps LuaMapHandle x y "[]"] by simp
  have xy: "luaL_checkint ?ls 2 = Some x" "luaL_checkint ?ls 3 = Some y"
    by (simp_all add: luaL_checkint_def lua_index_def numeral_2_eq_2 numeral_3_eq_3)
  have m: "lua_index ?ls 1 = LuaMapHandle"
    by (simp add: lua_index_def)
  show ?thesis
    unfolding dgn_points_connected_def m lua_gettop_def Let_def len
    using big sp xy by (simp add: points_connected_from_iff len)
qed

lemma adjacent_near:
  "d \<in> set (adjacent diag c) \<Longrightarrow> \<bar>fst d - fst c\<bar> \<le> 1 \<and> \<bar>snd d - snd c\<bar> \<le> 1"
  by (cases c) (auto simp: adjacent_def split: if_splits)

lemma adjacent_orthogonal:
  "(x + 1, y) \<in> set (adjacent diag (x, y))" "(x - 1, y) \<in> set (adjacent diag (x, y))"
  "(x, y + 1) \<in> set (adjacent diag (x, y))" "(x, y - 1) \<in> set (adjacent diag (x, y))"
  by (simp_all add: adjacent_def)

lemma reach_row:
  assumes open_grid: "\<forall>c. in_rect wd ht c \<longrightarrow> trav c"
    and r: "reach trav wd ht diag start (x, y)" and a: "in_rect wd ht (x, y)"
    and b: "in_rect wd ht (x', y)"
  shows "reach trav wd ht diag start (x', y)"
proof (cases "x \<le> x'")
  case True
  then show ?thesis
    using b
  proof (induction x' rule: int_ge_induct)
    case base
    from r show ?case .
  next
    case (step i)
    from step.prems a step.hyps have "in_rect wd ht (i, y)"
      by (simp add: in_rect_def)
    from step.IH [OF this] adjacent_orthogonal(1) [of i y diag] step.prems open_grid
    show ?case
      by (blast intro: reach_step)
  qed
next
  case False
  then have "x' \<le> x"
    by simp
  then show ?thesis
    using b
  proof (induction x' rule: int_le_induct)
    case base
    from r show ?case .
  next
    case (step i)
    from step.prems a step.hyps have "in_rect wd ht (i, y)"
      by (simp add: in_rect_def)
    from step.IH [OF this] adjacent_orthogonal(2) [of i y diag] step.prems open_grid
    show ?case
      by (blast intro: reach_step)
  qed
qed

lemma reach_column:
  assumes open_grid: "\<forall>c. in_rect wd ht c \<longrightarrow> trav c"
    and r: "reach trav wd ht diag start (x, y)" and a: "in_rect wd ht (x, y)"
    and b: "in_rect wd ht (x, y')"
  shows "reach trav wd ht diag start (x, y')"
proof (cases "y \<le> y'")
  case True
  then show ?thesis
    using b
  proof (induction y' rule: int_ge_induct)
    case base
    from r show ?case .
  next
    case (step i)
    from step.prems a step.hyps have "in_rect wd ht (x, i)"
      by (simp add: in_rect_def)
    from step.IH [OF this] adjacent_orthogonal(3) [of x i diag] step.prems open_grid
    show ?case
      by (blast intro: reach_step)
  qed
next
  case False
  then have "y' \<le> y"
    by simp
  then show ?thesis
    using b
  proof (induction y' rule: int_le_induct)
    case base
    from r show ?case .
  next
    case (step i)
    from step.prems a step.hyps have "in_rect wd ht (x, i)"
      by (simp add: in_rect_def)
    from step.IH [OF this] adjacent_orthogonal(4) [of x i diag] step.prems open_grid
    show ?case
      by (blast intro: reach_step)
  qed
qed

lemma open_grid_connected:
  assumes open_grid: "\<forall>c. in_rect wd ht c \<longrightarrow> trav c"
    and a: "in_rect wd ht start" and b: "in_rect wd ht s"
  shows "reach trav wd ht diag start s"
proof -
  obtain x y where st: "start = (x, y)"
    by (cases start) auto
  obtain x' y' where s: "s = (x', y')"
    by (cases s) auto
  from a b st s have mid: "in_rect wd ht (x', y)"
    by (simp add: in_rect_def)
  have "reach trav wd ht diag start (x, y)"
    unfolding st by (rule reach_start)
  from reach_row [OF open_grid this _ mid] a st have "reach trav wd ht diag start (x', y)"
    by simp
  from reach_column [OF open_grid this mid] b s show ?thesis
    by simp
qed

lemma wall_column_left:
  assumes wall: "\<forall>y. \<not> trav (k, y)" and "reach trav wd ht diag start c" and "fst start < k"
  shows "fst c < k"
  using assms(2)
proof (induction rule: reach.induct)
  case reach_start
  from assms(3) show ?case .
next
  case (reach_step c d)
  from adjacent_near [OF reach_step.hyps(2)] reach_step.IH have "fst d \<le> k"
    by linarith
  moreover have "fst d \<noteq> k"
  proof
    assume "fst d = k"
    then have "d = (k, snd d)"
      by (cases d) simp
    with wall reach_step.hyps(4) show False
      by metis
  qed
  ultimately show ?case
    by simp
qed

lemma wall_column_right:
  assumes wall: "\<forall>y. \<not> trav (k, y)" and "reach trav wd ht diag start c" and "k < fst start"
  shows "k < fst c"
  using assms(2)
proof (induction rule: reach.induct)
  case reach_start
  from assms(3) show ?case .
next
  case (reach_step c d)
  from adjacent_near [OF reach_step.hyps(2)] reach_step.IH have "k \<le> fst d"
    by linarith
  moreover have "fst d \<noteq> k"
  proof
    assume "fst d = k"
    then have "d = (k, snd d)"
      by (cases d) simp
    with wall reach_step.hyps(4) show False
      by metis
  qed
  ultimately show ?case
    by simp
qed

text \<open>
  Claim C7. \<^verbatim>\<open>dgn.points_connected\<close>, called with a map, a start point and at least one
  seed point, returns true exactly when every seed point is reachable from the start
  point through cells in range and traversable; so does the checker for every list of
  seeds. On a grid whose cells are all traversable the checker reports every start point
  and seed points in range as connected. When the cells of a whole column are not
  traversable and a seed point lies on the other side of it from the start point, it
  reports them as not connected. This holds for both neighbour policies.
\<close>

theorem points_connected_iff_reachable:
  "(ps \<noteq> [] \<longrightarrow>
      dgn_points_connected traversable diag w
        (LuaMapHandle # LuaNumber x # LuaNumber y # point_args ps)
      = Inr (\<forall>s\<in>set ps. reach (traversable w) (map_width w) (map_height w) diag (x, y) s))
   \<and> points_connected_from trav wd ht diag seeds start
      = (\<forall>s\<in>set seeds. reach trav wd ht diag start s)
   \<and> ((\<forall>c. in_rect wd ht c \<longrightarrow> trav c) \<and> in_rect wd ht start
        \<and> (\<forall>s\<in>set seeds. in_rect wd ht s)
      \<longrightarrow> points_connected_from trav wd ht diag seeds start)
   \<and> ((\<forall>y. \<not> trav (k, y))
        \<and> (\<exists>s\<in>set seeds. (fst start < k \<and> k < fst s) \<or> (fst s < k \<and> k < fst start))
      \<longrightarrow> \<not> points_connected_from trav wd ht diag seeds start)"
proof (intro conjI impI)
  assume "ps \<noteq> []"
  then show "dgn_points_connected traversable diag w
        (LuaMapHandle # LuaNumber x # LuaNumber y # point_args ps)
      = Inr (\<forall>s\<in>set ps. reach (traversable w) (map_width w) (map_height w) diag (x, y) s)"
    by (rule dgn_points_connected_args)
next
  show "points_connected_from trav wd ht diag seeds start
      = (\<forall>s\<in>set seeds. reach trav wd ht diag start s)"
    by (rule points_connected_from_iff)
next
  assume "(\<forall>c. in_rect wd ht c \<longrightarrow> trav c) \<and> in_rect wd ht start
        \<and> (\<forall>s\<in>set seeds. in_rect wd ht s)"
  then show "points_connected_from trav wd ht diag seeds start"
    unfolding points_connected_from_iff using open_grid_connected by blast
next
  assume h: "(\<forall>y. \<not> trav (k, y))
        \<and> (\<exists>s\<in>set seeds. (fst start < k \<and> k < fst s) \<or> (fst s < k \<and> k < fst start))"
  then obtain s where s: "s \<in> set seeds"
    and sides: "(fst start < k \<and> k < fst s) \<or> (fst s < k \<and> k < fst start)"
    by blast
  from h have wall: "\<forall>y. \<not> trav (k, y)"
    by simp
  have "\<not> reach trav wd ht diag start s"
  proof
    assume r: "reach trav wd ht diag start s"
    from sides show False
    proof
      assume "fst start < k \<and> k < fst s"
      with wall_column_left [OF wall r] show False
        by simp
    next
      assume "fst s < k \<and> k < fst start"
      with wall_column_right [OF wall r] show False
        by simp
    qed
  qed
  with s show "\<not> points_connected_from trav wd ht diag seeds start"
    unfolding points_connected_from_iff by blast
qed

lemma small_int_cases: "0 \<le> (i :: int) \<Longrightarrow> i < 3 \<Longrightarrow> i = 0 \<or> i = 1 \<or> i = 2"
  by arith

theorem points_connected_iff_reachable_witness:
  "dgn_points_connected glyph_traversable False open_room
     [LuaMapHandle, LuaNumber 0, LuaNumber 0, LuaNumber 2, LuaNumber 2] = Inr True
   \<and> dgn_points_connected glyph_traversable False walled_room
     [LuaMapHandle, LuaNumber 0, LuaNumber 0, LuaNumber 2, LuaNumber 2] = Inr False"
proof -
  have dims: "map_width open_room = 3" "map_height open_room = 3"
    "map_width walled_room = 3" "map_height walled_room = 3"
    by (simp_all add: map_width_def map_height_def open_room_def walled_room_def)
  have args: "point_args [(2, 2)] = [LuaNumber 2, LuaNumber 2]"
    by (simp add: point_args_def)
  have all_open: "\<forall>c. in_rect 3 3 c \<longrightarrow> glyph_traversable open_room c"
  proof (intro allI impI)
    fix c :: coord_def
    assume c: "in_rect 3 3 c"
    obtain x y where xy: "c = (x, y)"
      by (cases c) auto
    from c xy have "x = 0 \<or> x = 1 \<or> x = 2" and "y = 0 \<or> y = 1 \<or> y = 2"
      by (simp_all add: in_rect_def small_int_cases)
    then show "glyph_traversable open_room c"
      unfolding xy by (auto simp: glyph_traversable_def open_room_def)
  qed
  have wall: "\<forall>y. \<not> glyph_traversable walled_room (1, y)"
  proof
    fix y :: int
    show "\<not> glyph_traversable walled_room (1, y)"
    proof (cases "0 \<le> y \<and> y < 3")
      case True
      then have "y = 0 \<or> y = 1 \<or> y = 2"
        by (simp add: small_int_cases)
      then show ?thesis
        by (auto simp: glyph_traversable_def walled_room_def)
    next
      case False
      then show ?thesis
        by (auto simp: glyph_traversable_def walled_room_def)
    qed
  qed
  note open_case = points_connected_iff_reachable [where ps = "[(2, 2)]"
      and traversable = glyph_traversable and diag = False and w = open_room and x = 0 and y = 0
      and trav = "glyph_traversable open_room" and wd = 3 and ht = 3 and seeds = "[(2, 2)]"
      and start = "(0, 0)" and k = 1]
  note wall_case = points_connected_iff_reachable [where ps = "[(2, 2)]"
      and traversable = glyph_traversable and diag = False and w = walled_room and x = 0
      and y = 0 and trav = "glyph_traversable walled_room" and wd = 3 and ht = 3
      and seeds = "[(2, 2)]" and start = "(0, 0)" and k = 1]
  have in1: "in_rect 3 3 (0, 0)" and in2: "\<forall>s\<in>set [(2 :: int, 2 :: int)]. in_rect 3 3 s"
    by (simp_all add: in_rect_def)
  from open_case all_open in1 in2
  have "dgn_points_connected glyph_traversable False open_room
     (LuaMapHandle # LuaNumber 0 # LuaNumber 0 # point_args [(2, 2)]) = Inr True"
    by (auto simp: dims)
  moreover from wall_case wall
  have "dgn_points_connected glyph_traversable False walled_room
     (LuaMapHandle # LuaNumber 0 # LuaNumber 0 # point_args [(2, 2)]) = Inr False"
    by (auto simp: dims)
  ultimately show ?thesis
    by (simp add: args)
qed

section \<open>The call depth stays under its ceiling\<close>

lemma leave_enter: "leave k (enter k w) = w"
  by (cases k) simp_all

lemma nest_overflows:
  assumes "max_mixed_call_depth w \<le> mixed_call_depth w + (if k = From_native then int n else 0)
         \<or> max_lua_call_depth w \<le> lua_call_depth w + (if k = From_script then int n else 0)"
  shows "invoke w k (nest k n) = (Some StackOverflow, w)"
  using assms
proof (induction n arbitrary: w)
  case 0
  then show ?case
    by (auto simp: at_ceiling_def split: if_splits)
next
  case (Suc n)
  show ?case
  proof (cases "at_ceiling w")
    case True
    then show ?thesis
      by simp
  next
    case False
    from Suc.prems
    have "max_mixed_call_depth (enter k w)
            \<le> mixed_call_depth (enter k w) + (if k = From_native then int n else 0)
        \<or> max_lua_call_depth (enter k w)
            \<le> lua_call_depth (enter k w) + (if k = From_script then int n else 0)"
      by (cases k) auto
    from Suc.IH [OF this] False show ?thesis
      by (simp add: leave_enter)
  qed
qed

text \<open>
  Claim C8. On a wrapper whose \<open>mixed_call_depth\<close> or \<open>lua_call_depth\<close> has reached
  its ceiling, the next script invocation fails with \<open>StackOverflow\<close> and leaves the
  wrapper as it was: its body is not run. So no script recurses without bound: a body
  that nests invocations of one kind \<open>n\<close> deep fails with \<open>StackOverflow\<close> as soon as
  \<open>n\<close> levels would take the counter of that kind to its ceiling.
\<close>

theorem call_depth_ceiling:
  "(at_ceiling w \<longrightarrow> invoke w k body = (Some StackOverflow, w))
   \<and> (max_mixed_call_depth w \<le> mixed_call_depth w + int n
        \<longrightarrow> invoke w From_native (nest From_native n) = (Some StackOverflow, w))
   \<and> (max_lua_call_depth w \<le> lua_call_depth w + int n
        \<longrightarrow> invoke w From_script (nest From_script n) = (Some StackOverflow, w))"
proof (intro conjI impI)
  assume "at_ceiling w"
  then show "invoke w k body = (Some StackOverflow, w)"
    by (cases body) simp
next
  assume "max_mixed_call_depth w \<le> mixed_call_depth w + int n"
  then show "invoke w From_native (nest From_native n) = (Some StackOverflow, w)"
    by (intro nest_overflows) simp
next
  assume "max_lua_call_depth w \<le> lua_call_depth w + int n"
  then show "invoke w From_script (nest From_script n) = (Some StackOverflow, w)"
    by (intro nest_overflows) simp
qed

theorem call_depth_ceiling_witness:
  "at_ceiling (fresh_wrapper\<lparr>lua_call_depth := 3\<rparr>)
   \<and> invoke (fresh_wrapper\<lparr>lua_call_depth := 3\<rparr>) From_script (Script [])
       = (Some StackOverflow, fresh_wrapper\<lparr>lua_call_depth := 3\<rparr>)
   \<and> invoke (fresh_wrapper\<lparr>mixed_call_depth := 8\<rparr>) From_native (Script [])
       = (Some StackOverflow, fresh_wrapper\<lparr>mixed_call_depth := 8\<rparr>)
   \<and> invoke fresh_wrapper From_native (nest From_native 8) = (Some StackOverflow, fresh_wrapper)
   \<and> invoke fresh_wrapper From_script (nest From_script 3) = (Some StackOverflow, fresh_wrapper)
   \<and> invoke fresh_wrapper From_script (nest From_script 2) = (None, fresh_wrapper)"
proof -
  have c1: "at_ceiling (fresh_wrapper\<lparr>lua_call_depth := 3\<rparr>)"
    and c2: "at_ceiling (fresh_wrapper\<lparr>mixed_call_depth := 8\<rparr>)"
    by (simp_all add: at_ceiling_def fresh_wrapper_def)
  have d1: "max_mixed_call_depth fresh_wrapper \<le> mixed_call_depth fresh_wrapper + int 8"
    and d2: "max_lua_call_depth fresh_wrapper \<le> lua_call_depth fresh_wrapper + int 3"
    by (simp_all add: fresh_wrapper_def)
  have ok: "invoke fresh_wrapper From_script (nest From_script 2) = (None, fresh_wrapper)"
    by code_simp
  from call_depth_ceiling [of "fresh_wrapper\<lparr>lua_call_depth := 3\<rparr>" From_script "Script []" 0]
    call_depth_ceiling [of "fresh_wrapper\<lparr>mixed_call_depth := 8\<rparr>" From_native "Script []" 0]
    call_depth_ceiling [of fresh_wrapper From_native "Script []" 8]
    call_depth_ceiling [of fresh_wrapper From_script "Script []" 3]
    c1 c2 d1 d2 ok
  show ?thesis
    by simp
qed

end
